theory Spec2Isabelle
  imports Complex_Main "HOL-Library.Word"
begin

section \<open>The environment: files, streams and observable events\<close>

type_synonym byte = "8 word"
type_synonym path = string

text \<open>
  What \<open>fopen(p, "rb")\<close> sees: \<open>None\<close> when the file cannot be opened for reading,
  otherwise the bytes of the file.
\<close>
type_synonym disk = "path \<Rightarrow> byte list option"

text \<open>The two \<open>FILE*\<close> variables of \<open>CompareFiles\<close>.\<close>
datatype handle = If1 | If2

text \<open>
  Everything the program does to the outside world, in program order.
  \<open>Fopen h p ok\<close>: \<open>fopen\<close> of \<open>p\<close> into \<open>h\<close>, \<open>ok\<close> iff the result is not \<open>NULL\<close>;
  \<open>Fread h n got\<close>: \<open>fread\<close> of \<open>n\<close> bytes on \<open>h\<close> that transferred \<open>got\<close> bytes;
  \<open>Fclose h\<close>: \<open>fclose\<close>; \<open>Cout s\<close> and \<open>Cerr s\<close>: text written to standard output
  and standard error; \<open>CoutMember p\<close>: the path \<open>*i\<close> or \<open>*j\<close> written to standard output
  between the brackets of a cluster; \<open>CoutStats n t\<close>: the two numbers of the statistics block.
\<close>
datatype event =
    Fopen handle path bool
  | Fread handle nat nat
  | Fclose handle
  | Cout string
  | Cerr string
  | CoutMember path
  | CoutStats int rat

definition endl :: string where
  "endl = [CHR 0x0A]"

text \<open>A stream opened for reading: the bytes not yet read and the end-of-file indicator.\<close>
record stream =
  pending :: "byte list"
  eof :: bool

text \<open>
  \<open>block = new char[n](); fread(block, 1, n, f)\<close>: the block is zero-initialised, the
  bytes available (at most \<open>n\<close>) overwrite its front, and the end-of-file indicator is set
  when fewer than \<open>n\<close> bytes were available. The result is the block, the number of bytes
  transferred and the stream afterwards.
\<close>
definition fread :: "nat \<Rightarrow> stream \<Rightarrow> byte list \<times> nat \<times> stream" where
  "fread n f =
     (take n (pending f) @ replicate (n - length (pending f)) 0,
      min n (length (pending f)),
      \<lparr>pending = drop n (pending f), eof = (eof f \<or> length (pending f) < n)\<rparr>)"



text \<open>The handles that are open after a run of events: opened successfully and not closed.\<close>
fun open_handles :: "event list \<Rightarrow> handle set \<Rightarrow> handle set" where
  "open_handles [] H = H"
| "open_handles (Fopen h p ok # es) H = open_handles es (if ok then insert h H else H)"
| "open_handles (Fclose h # es) H = open_handles es (H - {h})"
| "open_handles (e # es) H = open_handles es H"

text \<open>The \<open>fread\<close> calls of a run of events.\<close>
fun freads :: "event list \<Rightarrow> (handle \<times> nat \<times> nat) list" where
  "freads [] = []"
| "freads (Fread h n got # es) = (h, n, got) # freads es"
| "freads (e # es) = freads es"

section \<open>The comparator: \<open>FileUtils::CompareFiles\<close>\<close>

definition MAX_PASS :: nat where
  "MAX_PASS = 6"

definition BUFFER_SIZE :: "nat list" where
  "BUFFER_SIZE = [64, 255, 4096, 65535, 16777215, 268435456]"

text \<open>
  The \<open>do ... while\<close> loop of \<open>CompareFiles\<close> together with the two \<open>fclose\<close> calls
  of each of its exits. \<open>sz\<close> and \<open>pass\<close> are the local variables \<open>size\<close> and \<open>pass\<close>, \<open>tr\<close>
  the events so far. The loop of the source does not end when it is entered with
  \<open>sz = 0\<close> and \<open>pass \<ge> MAX_PASS\<close> on two non-empty streams, so the result is an
  option: \<open>None\<close> is a loop that never returns.
\<close>
partial_function (option) compare_loop ::
  "nat \<Rightarrow> nat \<Rightarrow> stream \<Rightarrow> stream \<Rightarrow> event list \<Rightarrow> (bool \<times> event list) option" where
  "compare_loop sz pass if1 if2 tr =
     (let sz' = (if pass < MAX_PASS then BUFFER_SIZE ! pass else sz);
          pass' = (if pass < MAX_PASS then pass + 1 else pass);
          r1 = fread sz' if1;
          r2 = fread sz' if2;
          tr' = tr @ [Fread If1 sz' (fst (snd r1)), Fread If2 sz' (fst (snd r2))]
      in if fst r1 \<noteq> fst r2 then Some (False, tr' @ [Fclose If1, Fclose If2])
         else if \<not> eof (snd (snd r1)) \<and> \<not> eof (snd (snd r2))
           then compare_loop sz' pass' (snd (snd r1)) (snd (snd r2)) tr'
         else Some (True, tr' @ [Fclose If1, Fclose If2]))"

definition CompareFiles :: "disk \<Rightarrow> path \<Rightarrow> path \<Rightarrow> (bool \<times> event list) option" where
  "CompareFiles d file1 file2 =
     (let tr = [Fopen If1 file1 (d file1 \<noteq> None), Fopen If2 file2 (d file2 \<noteq> None)]
      in case d file1 of
           None \<Rightarrow> Some (False, tr @ [Cout ''Could not open: '', Cout file1, Cout endl])
         | Some c1 \<Rightarrow>
             (case d file2 of
                None \<Rightarrow> Some (False, tr @ [Cout ''Could not open: '', Cout file2, Cout endl])
              | Some c2 \<Rightarrow>
                  compare_loop 0 0 \<lparr>pending = c1, eof = False\<rparr> \<lparr>pending = c2, eof = False\<rparr> tr))"


section \<open>The indexer: \<open>FileUtils::BuildFileMap\<close>\<close>

text \<open>
  A directory entry as the walk sees it: a regular file (name, whether it can be opened
  for reading, contents), a directory (name, entries in iteration order), or an entry
  that is neither (skipped by both tests of the loop).
\<close>
datatype node =
    RegularFile string bool "byte list"
  | Directory string "node list"
  | Other string

text \<open>
  The members of the class. \<open>file_map\<close> is the \<open>unordered_map<int, vector<string>>\<close>
  as an association list with one entry per key (in order of first insertion; the source
  does not depend on the iteration order of the map where it iterates it). \<open>matching_keys\<close>
  is the \<open>std::set<int>\<close> as the ascending list of its elements, the order in which the
  source iterates it.
\<close>
record FileUtils =
  file_map :: "(int \<times> path list) list"
  map_built :: bool
  matching_keys :: "int list"

text \<open>The constructor: \<open>map_built(false)\<close>, the two containers empty.\<close>
definition FileUtils_init :: FileUtils where
  "FileUtils_init = \<lparr>file_map = [], map_built = False, matching_keys = []\<rparr>"

text \<open>
  \<open>int size = file_size(...)\<close>: the conversion of the unsigned file size to the 32-bit
  two's-complement \<open>int\<close>, wrap-around written out.
\<close>
definition to_int :: "nat \<Rightarrow> int" where
  "to_int n = (int n + 2 ^ 31) mod 2 ^ 32 - 2 ^ 31"

text \<open>\<open>file_map[k]\<close> read: the vector stored under \<open>k\<close>, empty when there is none.\<close>
fun bucket :: "(int \<times> path list) list \<Rightarrow> int \<Rightarrow> path list" where
  "bucket [] k = []"
| "bucket ((k', ps) # m) k = (if k' = k then ps else bucket m k)"

text \<open>\<open>file_map[k].push_back(p)\<close>.\<close>
fun push_back :: "(int \<times> path list) list \<Rightarrow> int \<Rightarrow> path \<Rightarrow> (int \<times> path list) list" where
  "push_back [] k p = [(k, [p])]"
| "push_back ((k', ps) # m) k p =
     (if k' = k then (k', ps @ [p]) # m else (k', ps) # push_back m k p)"

text \<open>\<open>matching_keys.insert(k)\<close>.\<close>
definition set_insert :: "int \<Rightarrow> int list \<Rightarrow> int list" where
  "set_insert k ks = (if k \<in> set ks then ks else insort k ks)"

text \<open>
  The \<open>for\<close> loop of \<open>BuildFileMap(dir)\<close> over the entries of the directory. The
  recursive call on a subdirectory runs the same loop on its entries and sets
  \<open>map_built\<close>; its return value is not used.
\<close>
fun BuildFileMap_loop :: "path \<Rightarrow> node list \<Rightarrow> FileUtils \<Rightarrow> FileUtils" where
  "BuildFileMap_loop dir [] fu = fu"
| "BuildFileMap_loop dir (Directory name sub # es) fu =
     BuildFileMap_loop dir es
       ((BuildFileMap_loop (dir @ ''/'' @ name) sub fu)\<lparr>map_built := True\<rparr>)"
| "BuildFileMap_loop dir (RegularFile name r c # es) fu =
     (let sz = to_int (length c);
          fu1 = fu\<lparr>file_map := push_back (file_map fu) sz (dir @ ''/'' @ name)\<rparr>;
          fu2 = (if length (bucket (file_map fu1) sz) > 1
                 then fu1\<lparr>matching_keys := set_insert sz (matching_keys fu1)\<rparr>
                 else fu1)
      in BuildFileMap_loop dir es fu2)"
| "BuildFileMap_loop dir (Other name # es) fu = BuildFileMap_loop dir es fu"

text \<open>
  \<open>BuildFileMap(dir_path)\<close> on a root that does not exist (\<open>None\<close>) or is a directory
  with the given entries. The result is the return value, the object afterwards and the
  events (the library prints a path between double quotes). (A root that exists and is not a readable directory makes the directory
  iterator of the library throw; that input is outside this model.)
\<close>
definition BuildFileMap :: "path \<Rightarrow> node list option \<Rightarrow> FileUtils \<Rightarrow> bool \<times> FileUtils \<times> event list" where
  "BuildFileMap dir_path tree fu =
     (case tree of
        None \<Rightarrow> (False, fu, [Cerr ''Root directory'', Cerr ([CHR 0x22] @ dir_path @ [CHR 0x22]),
                       Cerr (''does not exist'' @ endl)])
      | Some es \<Rightarrow> (True, (BuildFileMap_loop dir_path es fu)\<lparr>map_built := True\<rparr>, []))"

text \<open>The regular files below a directory in walk order: path, readable, contents.\<close>
fun files_of :: "path \<Rightarrow> node list \<Rightarrow> (path \<times> bool \<times> byte list) list" where
  "files_of dir [] = []"
| "files_of dir (Directory name sub # es) = files_of (dir @ ''/'' @ name) sub @ files_of dir es"
| "files_of dir (RegularFile name r c # es) = (dir @ ''/'' @ name, r, c) # files_of dir es"
| "files_of dir (Other name # es) = files_of dir es"

text \<open>What \<open>fopen\<close> sees of a tree: the readable regular files, by path.\<close>
definition disk_of :: "path \<Rightarrow> node list option \<Rightarrow> disk" where
  "disk_of dir tree p =
     (case tree of
        None \<Rightarrow> None
      | Some es \<Rightarrow>
          (case map_of (files_of dir es) p of
             None \<Rightarrow> None
           | Some (r, c) \<Rightarrow> if r then Some c else None))"

section \<open>The clusterer: \<open>FileUtils::CompareMatchingKeys\<close>\<close>

text \<open>
  The local variables of \<open>CompareMatchingKeys\<close> and the events so far. \<open>calls\<close> is a
  history variable, not a variable of the source: it records every call
  \<open>CompareFiles(*i, *j)\<close> with the value \<open>existing_matches\<close> had at the call.
\<close>
record cstate =
  existing_matches :: "path set"
  first_match :: bool
  match_found :: bool
  trace :: "event list"
  calls :: "(path \<times> path \<times> path set) list"

text \<open>The loop \<open>for(j=i+1; j!=curr.end(); j++)\<close>: \<open>i\<close> is \<open>*i\<close>, the list the paths after it.\<close>
fun inner_loop :: "disk \<Rightarrow> path \<Rightarrow> path list \<Rightarrow> cstate \<Rightarrow> cstate option" where
  "inner_loop d i [] s = Some s"
| "inner_loop d i (j # js) s =
     (if i \<in> existing_matches s then inner_loop d i js s
      else
        (case CompareFiles d i j of
           None \<Rightarrow> None
         | Some (same, tr) \<Rightarrow>
             (let s1 = s\<lparr>trace := trace s @ tr,
                         calls := calls s @ [(i, j, existing_matches s)]\<rparr>
              in if same then
                   (let s2 = (if first_match s1
                              then s1\<lparr>trace := trace s1 @
                                        [Cout ''[ '', CoutMember i, Cout '','', Cout endl,
                                         Cout ''  '', CoutMember j],
                                      match_found := True, first_match := False\<rparr>
                              else s1\<lparr>trace := trace s1 @
                                        [Cout '', '', Cout endl, Cout ''  '', CoutMember j]\<rparr>)
                    in inner_loop d i js (s2\<lparr>existing_matches := insert j (existing_matches s2)\<rparr>))
                 else inner_loop d i js s1)))"

text \<open>The loop \<open>for(i=curr.begin(); i!=curr.end(); i++)\<close> over one bucket.\<close>
fun outer_loop :: "disk \<Rightarrow> path list \<Rightarrow> cstate \<Rightarrow> cstate option" where
  "outer_loop d [] s = Some s"
| "outer_loop d (i # rest) s =
     (case inner_loop d i rest (s\<lparr>first_match := True, match_found := False\<rparr>) of
        None \<Rightarrow> None
      | Some s1 \<Rightarrow>
          outer_loop d rest
            (if match_found s1
             then s1\<lparr>trace := trace s1 @ [Cout '' ]'', Cout endl, Cout endl],
                     existing_matches := insert i (existing_matches s1)\<rparr>
             else s1))"

text \<open>The loop \<open>for(auto& x : matching_keys)\<close>.\<close>
fun keys_loop :: "disk \<Rightarrow> (int \<times> path list) list \<Rightarrow> int list \<Rightarrow> cstate \<Rightarrow> cstate option" where
  "keys_loop d m [] s = Some s"
| "keys_loop d m (x # xs) s =
     (case outer_loop d (bucket m x) s of
        None \<Rightarrow> None
      | Some s1 \<Rightarrow> keys_loop d m xs s1)"

text \<open>
  \<open>first_match\<close> and \<open>match_found\<close> are not initialised where they are declared; they
  are assigned at the start of every iteration over \<open>i\<close>, before they are read.
\<close>
definition CompareMatchingKeys :: "disk \<Rightarrow> FileUtils \<Rightarrow> cstate option" where
  "CompareMatchingKeys d fu =
     keys_loop d (file_map fu) (matching_keys fu)
       \<lparr>existing_matches = {}, first_match = False, match_found = False,
        trace = [Cout (''Matching Files: '' @ endl)], calls = []\<rparr>"

text \<open>The paths written to standard output as members of a cluster, in order.\<close>
fun members :: "event list \<Rightarrow> path list" where
  "members [] = []"
| "members (CoutMember p # es) = p # members es"
| "members (e # es) = members es"

text \<open>The paths handed to \<open>fopen\<close>, that is, the arguments of the comparator.\<close>
fun opened :: "event list \<Rightarrow> path list" where
  "opened [] = []"
| "opened (Fopen h p ok # es) = p # opened es"
| "opened (e # es) = opened es"

section \<open>Statistics and the entry points\<close>

text \<open>
  The loop of \<open>PrintMapStats\<close> with its two accumulators. \<open>total_size\<close> is a
  \<open>double\<close> in the source; here it is the exact rational.
\<close>
fun PrintMapStats_loop :: "(int \<times> path list) list \<Rightarrow> int \<times> rat \<Rightarrow> int \<times> rat" where
  "PrintMapStats_loop [] acc = acc"
| "PrintMapStats_loop ((k, ps) # m) (num_files, total_size) =
     PrintMapStats_loop m
       (num_files + int (length ps),
        total_size + (of_int k * of_nat (length ps)) / of_int (2 ^ 20))"

definition PrintMapStats :: "FileUtils \<Rightarrow> event list" where
  "PrintMapStats fu =
     (let (num_files, total_size) = PrintMapStats_loop (file_map fu) (0, 0)
      in [Cout (''-- Stats -- '' @ endl), CoutStats num_files total_size])"

text \<open>
  \<open>FindDups(dir_path)\<close>; \<open>fs\<close> is the file system, giving what is at a root path.
  The return value of \<open>BuildFileMap\<close> is not used.
\<close>
definition FindDups :: "(path \<Rightarrow> node list option) \<Rightarrow> path \<Rightarrow> FileUtils \<Rightarrow> (FileUtils \<times> event list) option" where
  "FindDups fs dir_path fu =
     (let (ok, fu1, tr1) = BuildFileMap dir_path (fs dir_path) fu
      in case CompareMatchingKeys (disk_of dir_path (fs dir_path)) fu1 of
           None \<Rightarrow> None
         | Some cs \<Rightarrow> Some (fu1, tr1 @ trace cs @ PrintMapStats fu1))"

text \<open>
  How a run of the program ends: it returns an exit code after some events, it runs
  forever, or it has undefined behaviour (\<open>std::string\<close> constructed from a pointer
  that is null or beyond the argument vector).
\<close>
datatype outcome = Exit int "event list" | Diverges | Undefined_Behaviour

text \<open>
  \<open>main\<close>: \<open>argv\<close> is the argument vector, its length \<open>argc\<close>. The string \<open>root\<close> (here \<open>root_dir\<close>) is
  constructed from \<open>argv[1]\<close> before \<open>argc\<close> is tested.
\<close>
definition main :: "(path \<Rightarrow> node list option) \<Rightarrow> string list \<Rightarrow> outcome" where
  "main fs argv =
     (if length argv < 2 then Undefined_Behaviour
      else
        (let root_dir = argv ! 1
         in if length argv \<noteq> 2
            then Exit 1 [Cerr (''Usage: file_utils <root_directory>'' @ endl)]
            else (case FindDups fs root_dir FileUtils_init of
                    None \<Rightarrow> Diverges
                  | Some (fu, tr) \<Rightarrow> Exit 0 tr)))"

section \<open>Examples used below\<close>

text \<open>Two identical files in different directories and a file of a size of its own.\<close>
definition tree_nested :: "node list" where
  "tree_nested =
     [RegularFile ''a'' True [1],
      Directory ''x'' [RegularFile ''b'' True [1], RegularFile ''u'' True [1, 2]]]"

text \<open>Four gibibytes of zero bytes.\<close>
definition zeros32 :: "byte list" where
  "zeros32 = replicate (2 ^ 32) 0"

text \<open>Two gibibytes of zero bytes.\<close>
definition zeros31 :: "byte list" where
  "zeros31 = replicate (2 ^ 31) 0"

text \<open>Files of 1, \<open>2^32 + 1\<close> and \<open>2^31\<close> bytes.\<close>
definition tree_sizes :: "node list" where
  "tree_sizes =
     [RegularFile ''a'' True [1], RegularFile ''b'' True (1 # zeros32),
      RegularFile ''n'' True zeros31]"

text \<open>A one-byte file beside a file of \<open>2^32 + 1\<close> bytes with the same first byte.\<close>
definition tree_wrap :: "node list" where
  "tree_wrap = [RegularFile ''a'' True [1], RegularFile ''b'' True (1 # zeros32)]"

text \<open>Two empty files.\<close>
definition tree_empty :: "node list" where
  "tree_empty = [RegularFile ''a'' True [], RegularFile ''b'' True []]"

text \<open>A readable file beside one that cannot be opened.\<close>
definition tree_unreadable :: "node list" where
  "tree_unreadable = [RegularFile ''a'' True [1], RegularFile ''b'' False [1]]"

text \<open>Three one-byte files, the first and the third identical.\<close>
definition tree_aba :: "node list" where
  "tree_aba = [RegularFile ''a'' True [1], RegularFile ''b'' True [2], RegularFile ''c'' True [1]]"

text \<open>The representative of a recorded call was not in \<open>existing_matches\<close> at the call.\<close>
definition rep_unmatched :: "path \<times> path \<times> path set \<Rightarrow> bool" where
  "rep_unmatched c = (fst c \<notin> snd (snd c))"

text \<open>
  The relation between the two members that \<open>BuildFileMap\<close> maintains: \<open>matching_keys\<close>
  holds exactly the keys whose vector has more than one element.
\<close>
definition keys_inv :: "FileUtils \<Rightarrow> bool" where
  "keys_inv fu = (set (matching_keys fu) = {k. 1 < length (bucket (file_map fu) k)})"

text \<open>The events of the loop of \<open>CompareFiles\<close>: reads and closes.\<close>
fun quiet :: "event \<Rightarrow> bool" where
  "quiet (Fread h n got) = True"
| "quiet (Fclose h) = True"
| "quiet e = False"

text \<open>\<open>2^32 - 64\<close> zero bytes.\<close>
definition tail_zeros :: "byte list" where
  "tail_zeros = replicate (2 ^ 32 - 64) 0"

text \<open>
  Two files of \<open>2^32 + 1\<close> bytes that agree on their first 64 bytes (a byte 1 and 63 zero
  bytes) and differ in the next byte, listed before a one-byte file holding the byte 1.
\<close>
definition big_a :: "byte list" where
  "big_a = (1 # replicate 63 0) @ 5 # tail_zeros"

definition big_c :: "byte list" where
  "big_c = (1 # replicate 63 0) @ 7 # tail_zeros"

definition tree_dup :: "node list" where
  "tree_dup = [RegularFile ''a'' True big_a, RegularFile ''c'' True big_c, RegularFile ''b'' True [1]]"

section \<open>The clusterer, abstractly\<close>

text \<open>The comparator as a relation: the call returns true.\<close>
definition same_files :: "disk \<Rightarrow> path \<Rightarrow> path \<Rightarrow> bool" where
  "same_files d a b = (map_option fst (CompareFiles d a b) = Some True)"

text \<open>
  What the loop over one bucket does to \<open>existing_matches\<close> and to the list of paths
  printed as cluster members, in terms of the comparator relation \<open>E\<close> alone; it is
  shown below to agree with \<open>outer_loop\<close>.
\<close>
fun bucket_clusters ::
  "(path \<Rightarrow> path \<Rightarrow> bool) \<Rightarrow> path list \<Rightarrow> path set \<times> path list \<Rightarrow> path set \<times> path list" where
  "bucket_clusters E [] st = st"
| "bucket_clusters E (i # rest) (M, out) =
     (if i \<in> M \<or> filter (E i) rest = [] then bucket_clusters E rest (M, out)
      else bucket_clusters E rest
             (insert i (M \<union> set (filter (E i) rest)), out @ i # filter (E i) rest))"

fun is_fread :: "event \<Rightarrow> bool" where
  "is_fread (Fread h n got) = True"
| "is_fread e = False"

section \<open>The comparator returns, and is symmetric\<close>

lemma BUFFER_SIZE_pos: "pass < MAX_PASS \<Longrightarrow> 64 \<le> BUFFER_SIZE ! pass"
proof -
  assume "pass < MAX_PASS"
  then have "pass = 0 \<or> pass = 1 \<or> pass = 2 \<or> pass = 3 \<or> pass = 4 \<or> pass = 5"
    unfolding MAX_PASS_def by arith
  then show ?thesis
    unfolding BUFFER_SIZE_def by (elim disjE) simp_all
qed

lemma next_size_pos:
  "0 < sz \<or> pass < MAX_PASS \<Longrightarrow> 0 < (if pass < MAX_PASS then BUFFER_SIZE ! pass else sz)"
  using BUFFER_SIZE_pos [of pass] by auto

lemma fread_shrinks:
  "0 < n \<Longrightarrow> \<not> eof (snd (snd (fread n f))) \<Longrightarrow>
   length (pending (snd (snd (fread n f)))) < length (pending f)"
  by (auto simp: fread_def)

text \<open>
  Entered with a positive \<open>size\<close> or with stages left, the loop returns: every round that
  does not end it consumes at least one byte of the first stream.
\<close>
lemma compare_loop_returns:
  "0 < sz \<or> pass < MAX_PASS \<Longrightarrow> \<exists>r. compare_loop sz pass if1 if2 tr = Some r"
proof (induction "length (pending if1)" arbitrary: sz pass if1 if2 tr rule: less_induct)
  case less
  let ?sz = "if pass < MAX_PASS then BUFFER_SIZE ! pass else sz"
  have pos: "0 < ?sz" using less.prems by (rule next_size_pos)
  show ?case
  proof (cases "fst (fread ?sz if1) = fst (fread ?sz if2) \<and>
      \<not> eof (snd (snd (fread ?sz if1))) \<and> \<not> eof (snd (snd (fread ?sz if2)))")
    case True
    then have "length (pending (snd (snd (fread ?sz if1)))) < length (pending if1)"
      using pos fread_shrinks by blast
    from less.hyps [OF this, of ?sz] pos
    show ?thesis using True
      by (subst compare_loop.simps) (simp add: Let_def)
  next
    case False
    then show ?thesis
      by (subst compare_loop.simps) (auto simp add: Let_def)
  qed
qed

lemma compare_loop_sym:
  "0 < sz \<or> pass < MAX_PASS \<Longrightarrow>
   map_option fst (compare_loop sz pass if1 if2 tr) =
   map_option fst (compare_loop sz pass if2 if1 tr2)"
proof (induction "length (pending if1)" arbitrary: sz pass if1 if2 tr tr2 rule: less_induct)
  case less
  let ?sz = "if pass < MAX_PASS then BUFFER_SIZE ! pass else sz"
  have pos: "0 < ?sz" using less.prems by (rule next_size_pos)
  show ?case
  proof (cases "fst (fread ?sz if1) = fst (fread ?sz if2) \<and>
      \<not> eof (snd (snd (fread ?sz if1))) \<and> \<not> eof (snd (snd (fread ?sz if2)))")
    case True
    then have "length (pending (snd (snd (fread ?sz if1)))) < length (pending if1)"
      using pos fread_shrinks by blast
    from less.hyps [OF this, of ?sz] pos
    show ?thesis using True
      by (subst compare_loop.simps, subst (2) compare_loop.simps) (simp add: Let_def)
  next
    case False
    then show ?thesis
      by (subst compare_loop.simps, subst (2) compare_loop.simps) (auto simp add: Let_def)
  qed
qed

lemma stages_left: "0 < (0::nat) \<or> 0 < MAX_PASS"
  by (simp add: MAX_PASS_def)

lemma CompareFiles_returns: "\<exists>same tr. CompareFiles d file1 file2 = Some (same, tr)"
proof (cases "d file1")
  case None
  then show ?thesis by (auto simp add: CompareFiles_def)
next
  case (Some c1)
  show ?thesis
  proof (cases "d file2")
    case None
    with Some show ?thesis by (auto simp add: CompareFiles_def)
  next
    case (Some c2)
    from compare_loop_returns [OF stages_left]
    show ?thesis using \<open>d file1 = Some c1\<close> Some
      by (simp add: CompareFiles_def Let_def)
  qed
qed

lemma CompareFiles_sym_aux:
  "map_option fst (CompareFiles d a b) = map_option fst (CompareFiles d b a)"
  using compare_loop_sym [OF stages_left]
  by (auto simp add: CompareFiles_def Let_def split: option.splits)

text \<open>
  C9. For all paths \<open>a\<close> and \<open>b\<close> and every state of the disk, \<open>CompareFiles(a, b)\<close> and
  \<open>CompareFiles(b, a)\<close> both return, and they return the same boolean (the events of the
  two calls may differ).
\<close>
theorem CompareFiles_symmetric:
  "\<exists>same tr tr'. CompareFiles d a b = Some (same, tr) \<and> CompareFiles d b a = Some (same, tr')"
proof -
  obtain s1 t1 where 1: "CompareFiles d a b = Some (s1, t1)"
    using CompareFiles_returns by blast
  obtain s2 t2 where 2: "CompareFiles d b a = Some (s2, t2)"
    using CompareFiles_returns by blast
  have "s1 = s2" using CompareFiles_sym_aux [of d a b] 1 2 by simp
  with 1 2 show ?thesis by blast
qed

section \<open>Calls that end in the first round\<close>

lemma replicate_numeral_pred: "replicate (numeral k) x = x # replicate (pred_numeral k) x"
  by (simp add: numeral_eq_Suc)

text \<open>
  When one of the two files is shorter than the first buffer, the call ends after one
  round, and its result is the comparison of the two zero-padded 64-byte blocks.
\<close>
lemma CompareFiles_one_round:
  assumes "d a = Some ca" "d b = Some cb" "length ca < 64 \<or> length cb < 64"
  shows "CompareFiles d a b =
    Some (take 64 ca @ replicate (64 - length ca) 0 = take 64 cb @ replicate (64 - length cb) 0,
          [Fopen If1 a True, Fopen If2 b True,
           Fread If1 64 (min 64 (length ca)), Fread If2 64 (min 64 (length cb)),
           Fclose If1, Fclose If2])"
  using assms
  apply (simp add: CompareFiles_def)
  apply (subst compare_loop.simps)
  apply (auto simp add: Let_def fread_def MAX_PASS_def BUFFER_SIZE_def)
  done

lemma disk_wrap:
  "disk_of ''r'' (Some tree_wrap) ''r/a'' = Some [1]"
  "disk_of ''r'' (Some tree_wrap) ''r/b'' = Some (1 # zeros32)"
  by (simp_all add: disk_of_def tree_wrap_def)

lemma length_zeros32: "length zeros32 = 2 ^ 32"
  unfolding zeros32_def by (rule length_replicate)

lemma take_zeros32: "n \<le> 2 ^ 32 \<Longrightarrow> take n zeros32 = replicate n 0"
  unfolding zeros32_def by (simp add: min_def)

lemma disk_empty:
  "disk_of ''r'' (Some tree_empty) ''r/a'' = Some []"
  "disk_of ''r'' (Some tree_empty) ''r/b'' = Some []"
  by (simp_all add: disk_of_def tree_empty_def)

lemma disk_unreadable:
  "disk_of ''r'' (Some tree_unreadable) ''r/a'' = Some [1]"
  "disk_of ''r'' (Some tree_unreadable) ''r/b'' = None"
  by (simp_all add: disk_of_def tree_unreadable_def)

lemma cmp_wrap:
  "CompareFiles (disk_of ''r'' (Some tree_wrap)) ''r/a'' ''r/b'' =
     Some (True, [Fopen If1 ''r/a'' True, Fopen If2 ''r/b'' True,
                  Fread If1 64 1, Fread If2 64 64, Fclose If1, Fclose If2])"
  using CompareFiles_one_round
      [where d = "disk_of ''r'' (Some tree_wrap)" and a = "''r/a''" and b = "''r/b''",
       OF disk_wrap(1) disk_wrap(2)]
  by (simp add: length_zeros32 take_zeros32)

text \<open>
  C7, as stated, fails: on two empty files \<open>CompareFiles\<close> returns true, but only after
  one \<open>fread\<close> call on each file (the body of the \<open>do ... while\<close> loop runs before the
  end-of-file test).
\<close>
theorem CompareFiles_empty_reads_counterexample:
  "CompareFiles (disk_of ''r'' (Some tree_empty)) ''r/a'' ''r/b'' =
     Some (True, [Fopen If1 ''r/a'' True, Fopen If2 ''r/b'' True,
                  Fread If1 64 0, Fread If2 64 0, Fclose If1, Fclose If2]) \<and>
   freads [Fopen If1 ''r/a'' True, Fopen If2 ''r/b'' True,
           Fread If1 64 0, Fread If2 64 0, Fclose If1, Fclose If2] \<noteq> []"
  using CompareFiles_one_round
      [where d = "disk_of ''r'' (Some tree_empty)" and a = "''r/a''" and b = "''r/b''",
       OF disk_empty(1) disk_empty(2)]
  by simp

text \<open>
  C7, amended. For every pair of zero-length files, \<open>CompareFiles\<close> returns true after
  exactly one \<open>fread\<close> call on each file, each asking for 64 bytes and transferring
  none, and closes both handles.
\<close>
theorem CompareFiles_empty:
  "d a = Some [] \<Longrightarrow> d b = Some [] \<Longrightarrow>
   CompareFiles d a b =
     Some (True, [Fopen If1 a True, Fopen If2 b True,
                  Fread If1 64 0, Fread If2 64 0, Fclose If1, Fclose If2])"
  using CompareFiles_one_round [of d a "[]" b "[]"] by simp

theorem CompareFiles_empty_witness:
  "CompareFiles (disk_of ''r'' (Some tree_empty)) ''r/a'' ''r/b'' =
     Some (True, [Fopen If1 ''r/a'' True, Fopen If2 ''r/b'' True,
                  Fread If1 64 0, Fread If2 64 0, Fclose If1, Fclose If2])"
  using CompareFiles_empty
      [where d = "disk_of ''r'' (Some tree_empty)" and a = "''r/a''" and b = "''r/b''",
       OF disk_empty(1) disk_empty(2)] .

lemma compare_loop_closes:
  "0 < sz \<or> pass < MAX_PASS \<Longrightarrow>
   \<exists>r ev. compare_loop sz pass if1 if2 tr = Some (r, tr @ ev @ [Fclose If1, Fclose If2]) \<and>
          list_all is_fread ev"
proof (induction "length (pending if1)" arbitrary: sz pass if1 if2 tr rule: less_induct)
  case less
  let ?sz = "if pass < MAX_PASS then BUFFER_SIZE ! pass else sz"
  let ?rd = "[Fread If1 ?sz (fst (snd (fread ?sz if1))), Fread If2 ?sz (fst (snd (fread ?sz if2)))]"
  have pos: "0 < ?sz" using less.prems by (rule next_size_pos)
  show ?case
  proof (cases "fst (fread ?sz if1) = fst (fread ?sz if2) \<and>
      \<not> eof (snd (snd (fread ?sz if1))) \<and> \<not> eof (snd (snd (fread ?sz if2)))")
    case True
    then have "length (pending (snd (snd (fread ?sz if1)))) < length (pending if1)"
      using pos fread_shrinks by blast
    from less.hyps [OF this, of ?sz "if pass < MAX_PASS then pass + 1 else pass"
        "snd (snd (fread ?sz if2))" "tr @ ?rd"] pos
    obtain r ev where
      1: "compare_loop ?sz (if pass < MAX_PASS then pass + 1 else pass)
            (snd (snd (fread ?sz if1))) (snd (snd (fread ?sz if2))) (tr @ ?rd) =
          Some (r, (tr @ ?rd) @ ev @ [Fclose If1, Fclose If2])"
      and 2: "list_all is_fread ev"
      by blast
    have "compare_loop sz pass if1 if2 tr = Some (r, (tr @ ?rd) @ ev @ [Fclose If1, Fclose If2])"
      using True 1 by (subst compare_loop.simps) (simp add: Let_def)
    with 2 show ?thesis
      by (intro exI [of _ r] exI [of _ "?rd @ ev"]) simp
  next
    case False
    then have "compare_loop sz pass if1 if2 tr =
        Some (fst (fread ?sz if1) = fst (fread ?sz if2), (tr @ ?rd) @ [Fclose If1, Fclose If2])"
      by (subst compare_loop.simps) (auto simp add: Let_def)
    then show ?thesis
      by (intro exI [of _ "fst (fread ?sz if1) = fst (fread ?sz if2)"] exI [of _ ?rd]) simp
  qed
qed

lemma open_handles_append: "open_handles (xs @ ys) H = open_handles ys (open_handles xs H)"
  by (induction xs H rule: open_handles.induct) simp_all

lemma open_handles_freads: "list_all is_fread ev \<Longrightarrow> open_handles ev H = H"
  by (induction ev H rule: open_handles.induct) simp_all

text \<open>When both files open, every return of the call leaves no handle open.\<close>
lemma CompareFiles_releases_handles:
  assumes "d a = Some ca" "d b = Some cb" "CompareFiles d a b = Some (r, tr)"
  shows "open_handles tr {} = {}"
proof -
  let ?tr = "[Fopen If1 a True, Fopen If2 b True]"
  from compare_loop_closes [OF stages_left, of "\<lparr>pending = ca, eof = False\<rparr>"
      "\<lparr>pending = cb, eof = False\<rparr>" ?tr]
  obtain r' ev where 1: "compare_loop 0 0 \<lparr>pending = ca, eof = False\<rparr>
      \<lparr>pending = cb, eof = False\<rparr> ?tr = Some (r', ?tr @ ev @ [Fclose If1, Fclose If2])"
    and 2: "list_all is_fread ev"
    by blast
  from assms 1 have "tr = ?tr @ ev @ [Fclose If1, Fclose If2]"
    by (simp add: CompareFiles_def Let_def)
  with 2 show ?thesis
    by (auto simp add: open_handles_append open_handles_freads)
qed

text \<open>
  C4. The claim is that both handles are released on every exit path. When the first
  file opens and the second does not, the call returns false with the first handle still
  open: the return after the test of \<open>if2\<close> has no \<open>fclose(if1)\<close>.
\<close>
theorem CompareFiles_leaks_handle:
  "CompareFiles (disk_of ''r'' (Some tree_unreadable)) ''r/a'' ''r/b'' =
     Some (False, [Fopen If1 ''r/a'' True, Fopen If2 ''r/b'' False,
                   Cout ''Could not open: '', Cout ''r/b'', Cout endl]) \<and>
   open_handles [Fopen If1 ''r/a'' True, Fopen If2 ''r/b'' False,
                 Cout ''Could not open: '', Cout ''r/b'', Cout endl] {} = {If1}"
  by (simp add: CompareFiles_def disk_unreadable)





section \<open>The clusterer returns; which calls it makes\<close>

lemma inner_loop_returns: "\<exists>s'. inner_loop d i js s = Some s'"
proof (induction js arbitrary: s)
  case Nil
  show ?case by simp
next
  case (Cons j js)
  obtain same tr where c: "CompareFiles d i j = Some (same, tr)"
    using CompareFiles_returns by blast
  show ?case using Cons.IH c
    by (simp add: Let_def)
qed

lemma outer_loop_returns: "\<exists>s'. outer_loop d ps s = Some s'"
proof (induction ps arbitrary: s)
  case Nil
  show ?case by simp
next
  case (Cons i rest)
  obtain s1 where "inner_loop d i rest (s\<lparr>first_match := True, match_found := False\<rparr>) = Some s1"
    using inner_loop_returns by blast
  then show ?case using Cons.IH by simp
qed

lemma keys_loop_returns: "\<exists>s'. keys_loop d m ks s = Some s'"
proof (induction ks arbitrary: s)
  case Nil
  show ?case by simp
next
  case (Cons x xs)
  obtain s1 where "outer_loop d (bucket m x) s = Some s1"
    using outer_loop_returns by blast
  then show ?case using Cons.IH by simp
qed

lemma CompareMatchingKeys_returns: "\<exists>cs. CompareMatchingKeys d fu = Some cs"
  unfolding CompareMatchingKeys_def by (rule keys_loop_returns)

text \<open>One iteration of the loop over \<open>j\<close>: the state in which the next iteration starts.\<close>
lemma inner_loop_step:
  assumes "inner_loop d i (j # js) s = Some s'"
  obtains
    (skip) "i \<in> existing_matches s" "inner_loop d i js s = Some s'"
  | (differ) tr where "i \<notin> existing_matches s" "CompareFiles d i j = Some (False, tr)"
      "inner_loop d i js
         (s\<lparr>trace := trace s @ tr, calls := calls s @ [(i, j, existing_matches s)]\<rparr>) = Some s'"
  | (same) tr where "i \<notin> existing_matches s" "CompareFiles d i j = Some (True, tr)"
      "inner_loop d i js
         (s\<lparr>trace := trace s @ tr @
               (if first_match s
                then [Cout ''[ '', CoutMember i, Cout '','', Cout endl, Cout ''  '', CoutMember j]
                else [Cout '', '', Cout endl, Cout ''  '', CoutMember j]),
             calls := calls s @ [(i, j, existing_matches s)],
             match_found := (first_match s \<or> match_found s),
             first_match := False,
             existing_matches := insert j (existing_matches s)\<rparr>) = Some s'"
proof (cases "i \<in> existing_matches s")
  case True
  with assms skip show ?thesis by simp
next
  case False
  obtain r tr where c: "CompareFiles d i j = Some (r, tr)"
    using CompareFiles_returns by blast
  show ?thesis
  proof (cases r)
    case True
    have "s\<lparr>trace := trace s @ tr @
               (if first_match s
                then [Cout ''[ '', CoutMember i, Cout '','', Cout endl, Cout ''  '', CoutMember j]
                else [Cout '', '', Cout endl, Cout ''  '', CoutMember j]),
             calls := calls s @ [(i, j, existing_matches s)],
             match_found := (first_match s \<or> match_found s),
             first_match := False,
             existing_matches := insert j (existing_matches s)\<rparr> =
      (let s1 = s\<lparr>trace := trace s @ tr, calls := calls s @ [(i, j, existing_matches s)]\<rparr>;
           s2 = (if first_match s1
                              then s1\<lparr>trace := trace s1 @
                                        [Cout ''[ '', CoutMember i, Cout '','', Cout endl,
                                         Cout ''  '', CoutMember j],
                                      match_found := True, first_match := False\<rparr>
                              else s1\<lparr>trace := trace s1 @
                                        [Cout '', '', Cout endl, Cout ''  '', CoutMember j]\<rparr>)
       in s2\<lparr>existing_matches := insert j (existing_matches s2)\<rparr>)"
      by (simp add: Let_def)
    with assms False c True same [of tr] show ?thesis
      by (simp add: Let_def)
  next
    case False
    with assms \<open>i \<notin> existing_matches s\<close> c differ [of tr] show ?thesis
      by (simp add: Let_def)
  qed
qed

lemma inner_loop_calls:
  "inner_loop d i js s = Some s' \<Longrightarrow> list_all rep_unmatched (calls s) \<Longrightarrow>
   list_all rep_unmatched (calls s')"
proof (induction js arbitrary: s)
  case Nil
  then show ?case by simp
next
  case (Cons j js)
  from Cons.prems(1) show ?case
  proof (cases rule: inner_loop_step)
    case skip
    with Cons show ?thesis by blast
  next
    case (differ tr)
    show ?thesis
      using Cons.prems(2) differ(1)
      by (intro Cons.IH [OF differ(3)]) (simp add: rep_unmatched_def)
  next
    case (same tr)
    show ?thesis
      using Cons.prems(2) same(1)
      by (intro Cons.IH [OF same(3)]) (simp add: rep_unmatched_def)
  qed
qed

lemma outer_loop_calls:
  "outer_loop d ps s = Some s' \<Longrightarrow> list_all rep_unmatched (calls s) \<Longrightarrow>
   list_all rep_unmatched (calls s')"
proof (induction ps arbitrary: s)
  case Nil
  then show ?case by simp
next
  case (Cons i rest)
  obtain s1 where 1: "inner_loop d i rest (s\<lparr>first_match := True, match_found := False\<rparr>) = Some s1"
    using inner_loop_returns by blast
  from inner_loop_calls [OF 1] Cons.prems(2) have 2: "list_all rep_unmatched (calls s1)"
    by simp
  from Cons.prems(1) 1 show ?case
    by (auto intro!: Cons.IH simp add: 2 split: if_splits)
qed

lemma keys_loop_calls:
  "keys_loop d m ks s = Some s' \<Longrightarrow> list_all rep_unmatched (calls s) \<Longrightarrow>
   list_all rep_unmatched (calls s')"
proof (induction ks arbitrary: s)
  case Nil
  then show ?case by simp
next
  case (Cons x xs)
  obtain s1 where 1: "outer_loop d (bucket m x) s = Some s1"
    using outer_loop_returns by blast
  from outer_loop_calls [OF 1 Cons.prems(2)] Cons.prems(1) 1 show ?case
    by (auto intro: Cons.IH)
qed

lemma build_aba:
  "BuildFileMap ''r'' (Some tree_aba) FileUtils_init =
   (True, \<lparr>file_map = [(1, [''r/a'', ''r/b'', ''r/c''])], map_built = True, matching_keys = [1]\<rparr>, [])"
  by (simp add: BuildFileMap_def tree_aba_def FileUtils_init_def to_int_def set_insert_def Let_def)

lemma disk_aba:
  "disk_of ''r'' (Some tree_aba) ''r/a'' = Some [1]"
  "disk_of ''r'' (Some tree_aba) ''r/b'' = Some [2]"
  "disk_of ''r'' (Some tree_aba) ''r/c'' = Some [1]"
  by (simp_all add: disk_of_def tree_aba_def)

lemma cmp_aba:
  "CompareFiles (disk_of ''r'' (Some tree_aba)) ''r/a'' ''r/b'' =
     Some (False, [Fopen If1 ''r/a'' True, Fopen If2 ''r/b'' True,
                  Fread If1 64 1, Fread If2 64 1, Fclose If1, Fclose If2])"
  "CompareFiles (disk_of ''r'' (Some tree_aba)) ''r/a'' ''r/c'' =
     Some (True, [Fopen If1 ''r/a'' True, Fopen If2 ''r/c'' True,
                  Fread If1 64 1, Fread If2 64 1, Fclose If1, Fclose If2])"
  "CompareFiles (disk_of ''r'' (Some tree_aba)) ''r/b'' ''r/c'' =
     Some (False, [Fopen If1 ''r/b'' True, Fopen If2 ''r/c'' True,
                  Fread If1 64 1, Fread If2 64 1, Fclose If1, Fclose If2])"
  using CompareFiles_one_round [where d = "disk_of ''r'' (Some tree_aba)", OF disk_aba(1) disk_aba(2)]
        CompareFiles_one_round [where d = "disk_of ''r'' (Some tree_aba)", OF disk_aba(1) disk_aba(3)]
        CompareFiles_one_round [where d = "disk_of ''r'' (Some tree_aba)", OF disk_aba(2) disk_aba(3)]
  by simp_all

lemma calls_aba:
  "map_option calls (CompareMatchingKeys (disk_of ''r'' (Some tree_aba))
      (fst (snd (BuildFileMap ''r'' (Some tree_aba) FileUtils_init)))) =
   Some [(''r/a'', ''r/b'', {}), (''r/a'', ''r/c'', {}), (''r/b'', ''r/c'', {''r/a'', ''r/c''})]"
  by (simp add: build_aba CompareMatchingKeys_def cmp_aba)


text \<open>
  C3. The claim is that a path already in \<open>existing_matches\<close> is skipped as a \<open>*j\<close>
  candidate and never compared again, as the comment above the test in the loop over
  \<open>j\<close> says. The test looks up \<open>*i\<close>, not \<open>*j\<close>. In a bucket \<open>r/a, r/b, r/c\<close> where
  \<open>r/a\<close> and \<open>r/c\<close> are identical and \<open>r/b\<close> differs, \<open>r/c\<close> is matched by the
  representative \<open>r/a\<close> and is then compared again with the next representative \<open>r/b\<close>:
  the third call has a second argument that is in \<open>existing_matches\<close> at the call.
\<close>
theorem CompareMatchingKeys_compares_matched_candidate:
  "map_option calls (CompareMatchingKeys (disk_of ''r'' (Some tree_aba))
      (fst (snd (BuildFileMap ''r'' (Some tree_aba) FileUtils_init)))) =
   Some [(''r/a'', ''r/b'', {}), (''r/a'', ''r/c'', {}), (''r/b'', ''r/c'', {''r/a'', ''r/c''})] \<and>
   ''r/c'' \<in> {''r/a'', ''r/c''}"
  using calls_aba by simp

text \<open>
  What the test that the code has does ensure: in every call \<open>CompareFiles(*i, *j)\<close> that
  \<open>CompareMatchingKeys\<close> makes, the first argument \<open>*i\<close> is not in \<open>existing_matches\<close> at
  the call.
\<close>
lemma CompareMatchingKeys_first_argument_unmatched:
  "CompareMatchingKeys d fu = Some cs \<Longrightarrow> (i, j, em) \<in> set (calls cs) \<Longrightarrow> i \<notin> em"
proof -
  assume a: "CompareMatchingKeys d fu = Some cs" and b: "(i, j, em) \<in> set (calls cs)"
  have "list_all rep_unmatched (calls cs)"
    using a unfolding CompareMatchingKeys_def
    by (rule keys_loop_calls) simp
  with b show ?thesis
    by (auto simp add: list_all_iff rep_unmatched_def)
qed

section \<open>What the indexer builds\<close>

lemma bucket_push_back:
  "bucket (push_back m k p) k' = (if k' = k then bucket m k @ [p] else bucket m k')"
  by (induction m) auto

lemma set_set_insert: "set (set_insert k ks) = insert k (set ks)"
  by (auto simp add: set_insert_def set_insort_key)

lemma BuildFileMap_loop_bucket:
  "bucket (file_map (BuildFileMap_loop dir es fu)) k =
   bucket (file_map fu) k @ map fst (filter (\<lambda>f. to_int (length (snd (snd f))) = k) (files_of dir es))"
  by (induction dir es fu rule: BuildFileMap_loop.induct)
     (simp_all add: Let_def bucket_push_back)

lemma BuildFileMap_loop_keys_inv:
  "keys_inv fu \<Longrightarrow> keys_inv (BuildFileMap_loop dir es fu)"
proof (induction dir es fu rule: BuildFileMap_loop.induct)
  case (3 dir name r c es fu)
  let ?sz = "to_int (length c)"
  let ?fu1 = "fu\<lparr>file_map := push_back (file_map fu) ?sz (dir @ ''/'' @ name)\<rparr>"
  let ?fu2 = "if length (bucket (file_map ?fu1) ?sz) > 1
              then ?fu1\<lparr>matching_keys := set_insert ?sz (matching_keys ?fu1)\<rparr> else ?fu1"
  have "keys_inv ?fu2"
    using "3.prems" by (auto simp add: keys_inv_def bucket_push_back set_set_insert)
  then have "keys_inv (BuildFileMap_loop dir es ?fu2)"
    by (rule "3.IH" [OF refl refl refl])
  then show ?case by (simp only: BuildFileMap_loop.simps Let_def)
qed (simp_all add: keys_inv_def)

lemma BuildFileMap_loop_keys_mono:
  "set (matching_keys fu) \<subseteq> set (matching_keys (BuildFileMap_loop dir es fu))"
proof (induction dir es fu rule: BuildFileMap_loop.induct)
  case (3 dir name r c es fu)
  show ?case
    using "3.IH" [OF refl refl refl]
    by (auto simp add: Let_def set_set_insert split: if_splits)
qed auto


section \<open>Which files a run opens\<close>

lemma compare_loop_trace:
  "0 < sz \<or> pass < MAX_PASS \<Longrightarrow>
   \<exists>r ev. compare_loop sz pass if1 if2 tr = Some (r, tr @ ev) \<and> list_all quiet ev"
proof (induction "length (pending if1)" arbitrary: sz pass if1 if2 tr rule: less_induct)
  case less
  let ?sz = "if pass < MAX_PASS then BUFFER_SIZE ! pass else sz"
  let ?tr = "tr @ [Fread If1 ?sz (fst (snd (fread ?sz if1))), Fread If2 ?sz (fst (snd (fread ?sz if2)))]"
  have pos: "0 < ?sz" using less.prems by (rule next_size_pos)
  show ?case
  proof (cases "fst (fread ?sz if1) = fst (fread ?sz if2) \<and>
      \<not> eof (snd (snd (fread ?sz if1))) \<and> \<not> eof (snd (snd (fread ?sz if2)))")
    case True
    then have "length (pending (snd (snd (fread ?sz if1)))) < length (pending if1)"
      using pos fread_shrinks by blast
    from less.hyps [OF this, of ?sz "if pass < MAX_PASS then pass + 1 else pass"
        "snd (snd (fread ?sz if2))" ?tr] pos
    obtain r ev where
      1: "compare_loop ?sz (if pass < MAX_PASS then pass + 1 else pass)
            (snd (snd (fread ?sz if1))) (snd (snd (fread ?sz if2))) ?tr = Some (r, ?tr @ ev)"
      and 2: "list_all quiet ev"
      by blast
    have "compare_loop sz pass if1 if2 tr = Some (r, ?tr @ ev)"
      using True 1 by (subst compare_loop.simps) (simp add: Let_def)
    with 2 show ?thesis
      by (intro exI [of _ r] exI [of _ "[Fread If1 ?sz (fst (snd (fread ?sz if1))),
          Fread If2 ?sz (fst (snd (fread ?sz if2)))] @ ev"]) simp
  next
    case False
    then have "compare_loop sz pass if1 if2 tr =
        Some (fst (fread ?sz if1) = fst (fread ?sz if2), ?tr @ [Fclose If1, Fclose If2])"
      by (subst compare_loop.simps) (auto simp add: Let_def)
    then show ?thesis
      by (intro exI [of _ "fst (fread ?sz if1) = fst (fread ?sz if2)"]
          exI [of _ "[Fread If1 ?sz (fst (snd (fread ?sz if1))),
          Fread If2 ?sz (fst (snd (fread ?sz if2))), Fclose If1, Fclose If2]"]) simp
  qed
qed

lemma opened_append: "opened (xs @ ys) = opened xs @ opened ys"
  by (induction xs rule: opened.induct) simp_all

lemma members_append: "members (xs @ ys) = members xs @ members ys"
  by (induction xs rule: members.induct) simp_all

lemma quiet_opened: "list_all quiet ev \<Longrightarrow> opened ev = []"
  by (induction ev rule: opened.induct) simp_all

lemma quiet_members: "list_all quiet ev \<Longrightarrow> members ev = []"
  by (induction ev rule: members.induct) simp_all

lemma CompareFiles_trace:
  "CompareFiles d a b = Some (r, tr) \<Longrightarrow> opened tr = [a, b] \<and> members tr = []"
proof (cases "d a = None \<or> d b = None")
  case True
  assume "CompareFiles d a b = Some (r, tr)"
  with True show ?thesis
    by (cases "d a"; cases "d b") (auto simp add: CompareFiles_def Let_def)
next
  case False
  assume c: "CompareFiles d a b = Some (r, tr)"
  from False obtain ca cb where ab: "d a = Some ca" "d b = Some cb" by auto
  let ?tr = "[Fopen If1 a True, Fopen If2 b True]"
  from compare_loop_trace [OF stages_left, of "\<lparr>pending = ca, eof = False\<rparr>"
      "\<lparr>pending = cb, eof = False\<rparr>" ?tr]
  obtain r' ev where 1: "compare_loop 0 0 \<lparr>pending = ca, eof = False\<rparr>
      \<lparr>pending = cb, eof = False\<rparr> ?tr = Some (r', ?tr @ ev)" and 2: "list_all quiet ev"
    by blast
  from c ab 1 have "tr = ?tr @ ev"
    by (simp add: CompareFiles_def Let_def)
  with 2 show ?thesis
    by (simp add: opened_append members_append quiet_opened quiet_members)
qed

lemma inner_loop_opened:
  "inner_loop d i js s = Some s' \<Longrightarrow>
   set (opened (trace s')) \<subseteq> set (opened (trace s)) \<union> insert i (set js)"
proof (induction js arbitrary: s)
  case Nil
  then show ?case by auto
next
  case (Cons j js)
  from Cons.prems(1) show ?case
  proof (cases rule: inner_loop_step)
    case skip
    from Cons.IH [OF skip(2)] show ?thesis by auto
  next
    case (differ tr)
    from Cons.IH [OF differ(3)] CompareFiles_trace [OF differ(2)] show ?thesis
      by (auto simp add: opened_append)
  next
    case (same tr)
    from Cons.IH [OF same(3)] CompareFiles_trace [OF same(2)] show ?thesis
      by (auto simp add: opened_append split: if_splits)
  qed
qed

lemma outer_loop_opened:
  "outer_loop d ps s = Some s' \<Longrightarrow>
   set (opened (trace s')) \<subseteq> set (opened (trace s)) \<union> set ps"
proof (induction ps arbitrary: s)
  case Nil
  then show ?case by auto
next
  case (Cons i rest)
  obtain s1 where 1: "inner_loop d i rest (s\<lparr>first_match := True, match_found := False\<rparr>) = Some s1"
    using inner_loop_returns by blast
  from inner_loop_opened [OF 1]
  have 2: "set (opened (trace s1)) \<subseteq> set (opened (trace s)) \<union> insert i (set rest)"
    by simp
  show ?case
  proof (cases "match_found s1")
    case True
    with Cons.prems 1 have "outer_loop d rest
            (s1\<lparr>trace := trace s1 @ [Cout '' ]'', Cout endl, Cout endl],
                     existing_matches := insert i (existing_matches s1)\<rparr>) = Some s'"
      by simp
    from Cons.IH [OF this] 2 show ?thesis
      by (auto simp add: opened_append)
  next
    case False
    with Cons.prems 1 have "outer_loop d rest s1 = Some s'" by simp
    from Cons.IH [OF this] 2 show ?thesis by auto
  qed
qed

lemma keys_loop_opened:
  "keys_loop d m ks s = Some s' \<Longrightarrow>
   set (opened (trace s')) \<subseteq> set (opened (trace s)) \<union> (\<Union>k\<in>set ks. set (bucket m k))"
proof (induction ks arbitrary: s)
  case Nil
  then show ?case by auto
next
  case (Cons x xs)
  obtain s1 where 1: "outer_loop d (bucket m x) s = Some s1"
    using outer_loop_returns by blast
  with Cons.prems have "keys_loop d m xs s1 = Some s'" by simp
  from Cons.IH [OF this] outer_loop_opened [OF 1] show ?case by auto
qed

lemma CompareMatchingKeys_opened:
  "CompareMatchingKeys d fu = Some cs \<Longrightarrow> p \<in> set (opened (trace cs)) \<Longrightarrow>
   \<exists>k\<in>set (matching_keys fu). p \<in> set (bucket (file_map fu) k)"
  unfolding CompareMatchingKeys_def
  using keys_loop_opened [of d "file_map fu" "matching_keys fu"
      "\<lparr>existing_matches = {}, first_match = False, match_found = False,
        trace = [Cout (''Matching Files: '' @ endl)], calls = []\<rparr>" cs]
  by auto


section \<open>The bucket key and the statistics\<close>

lemma to_int_mod: "to_int n mod 2 ^ 32 = int n mod 2 ^ 32"
proof -
  have "to_int n mod 2 ^ 32 = ((int n + 2 ^ 31) mod 2 ^ 32 + (- (2 ^ 31))) mod 2 ^ 32"
    by (simp add: to_int_def)
  also have "\<dots> = ((int n + 2 ^ 31) + (- (2 ^ 31))) mod 2 ^ 32"
    by (rule mod_add_left_eq)
  finally show ?thesis by simp
qed

lemma to_int_range: "- (2 ^ 31) \<le> to_int n \<and> to_int n < 2 ^ 31"
proof -
  have "0 \<le> (int n + 2 ^ 31) mod 2 ^ 32" "(int n + 2 ^ 31) mod 2 ^ 32 < 2 ^ 32"
    by simp_all
  then show ?thesis by (simp add: to_int_def)
qed

lemma to_int_small: "n < 2 ^ 31 \<Longrightarrow> to_int n = int n"
  by (simp add: to_int_def)

lemma to_int_large: "2 ^ 31 \<le> n \<Longrightarrow> to_int n < int n"
  using to_int_range [of n] by simp

lemma to_int_exact_iff: "(to_int n = int n) = (n < 2 ^ 31)"
  using to_int_small [of n] to_int_large [of n] by fastforce

lemma to_int_negative:
  assumes "2 ^ 31 \<le> n" "n < 2 ^ 32"
  shows "to_int n = int n - 2 ^ 32"
proof -
  have "int n + 2 ^ 31 = (int n - 2 ^ 31) + 1 * 2 ^ 32" by simp
  then have "(int n + 2 ^ 31) mod 2 ^ 32 = ((int n - 2 ^ 31) + 1 * 2 ^ 32) mod 2 ^ 32"
    by (simp only:)
  also have "\<dots> = (int n - 2 ^ 31) mod 2 ^ 32"
    by (rule mod_mult_self1)
  also have "\<dots> = int n - 2 ^ 31"
    using assms by (intro mod_pos_pos_trivial) simp_all
  finally show ?thesis by (simp add: to_int_def)
qed

lemma to_int_wrap:
  assumes "int n1 = int n2 + m * 2 ^ 32"
  shows "to_int n1 = to_int n2"
proof -
  have "int n1 + 2 ^ 31 = (int n2 + 2 ^ 31) + m * 2 ^ 32"
    using assms by simp
  then have "(int n1 + 2 ^ 31) mod 2 ^ 32 = ((int n2 + 2 ^ 31) + m * 2 ^ 32) mod 2 ^ 32"
    by (simp only:)
  also have "\<dots> = (int n2 + 2 ^ 31) mod 2 ^ 32"
    by (rule mod_mult_self1)
  finally show ?thesis by (simp add: to_int_def)
qed

lemma push_back_count:
  "(\<Sum>e\<leftarrow>push_back m k p. int (length (snd e))) = (\<Sum>e\<leftarrow>m. int (length (snd e))) + 1"
  by (induction m) auto

lemma push_back_total:
  "(\<Sum>e\<leftarrow>push_back m k p. rat_of_int (fst e) * of_nat (length (snd e))) =
   (\<Sum>e\<leftarrow>m. rat_of_int (fst e) * of_nat (length (snd e))) + of_int k"
  by (induction m) (auto simp add: algebra_simps)

lemma BuildFileMap_loop_count:
  "(\<Sum>e\<leftarrow>file_map (BuildFileMap_loop dir es fu). int (length (snd e))) =
   (\<Sum>e\<leftarrow>file_map fu. int (length (snd e))) + int (length (files_of dir es))"
  by (induction dir es fu rule: BuildFileMap_loop.induct)
     (simp_all add: Let_def push_back_count)

lemma BuildFileMap_loop_total:
  "(\<Sum>e\<leftarrow>file_map (BuildFileMap_loop dir es fu). rat_of_int (fst e) * of_nat (length (snd e))) =
   (\<Sum>e\<leftarrow>file_map fu. rat_of_int (fst e) * of_nat (length (snd e))) +
   (\<Sum>f\<leftarrow>files_of dir es. of_int (to_int (length (snd (snd f)))))"
  by (induction dir es fu rule: BuildFileMap_loop.induct)
     (simp_all add: Let_def push_back_total)

lemma PrintMapStats_loop_sums:
  "PrintMapStats_loop m (n, t) =
   (n + (\<Sum>e\<leftarrow>m. int (length (snd e))),
    t + (\<Sum>e\<leftarrow>m. rat_of_int (fst e) * of_nat (length (snd e))) / 2 ^ 20)"
  by (induction m arbitrary: n t) (auto simp add: add_divide_distrib)

lemma two_in_list: "p \<in> set xs \<Longrightarrow> q \<in> set xs \<Longrightarrow> p \<noteq> q \<Longrightarrow> 1 < length xs"
  by (cases xs; cases "tl xs") auto


lemma BuildFileMap_init_bucket:
  assumes "BuildFileMap dir (Some es) FileUtils_init = (ok, fu, tr)"
  shows "bucket (file_map fu) k =
         map fst (filter (\<lambda>f. to_int (length (snd (snd f))) = k) (files_of dir es))"
  using assms BuildFileMap_loop_bucket [of dir es FileUtils_init k]
  by (auto simp add: BuildFileMap_def FileUtils_init_def)

lemma BuildFileMap_init_keys:
  assumes "BuildFileMap dir (Some es) FileUtils_init = (ok, fu, tr)"
  shows "set (matching_keys fu) = {k. 1 < length (bucket (file_map fu) k)}"
proof -
  have "keys_inv FileUtils_init"
    by (simp add: keys_inv_def FileUtils_init_def)
  then have "keys_inv (BuildFileMap_loop dir es FileUtils_init)"
    by (rule BuildFileMap_loop_keys_inv)
  with assms show ?thesis
    by (auto simp add: BuildFileMap_def keys_inv_def)
qed

lemma BuildFileMap_init_member:
  assumes "BuildFileMap dir (Some es) FileUtils_init = (ok, fu, tr)"
    and "(p, r, c) \<in> set (files_of dir es)"
  shows "p \<in> set (bucket (file_map fu) (to_int (length c)))"
  using assms(2) unfolding BuildFileMap_init_bucket [OF assms(1)]
  by force

lemma BuildFileMap_init_stats:
  assumes "BuildFileMap dir (Some es) FileUtils_init = (ok, fu, tr)"
  shows "PrintMapStats fu =
     [Cout (''-- Stats -- '' @ endl),
      CoutStats (int (length (files_of dir es)))
        ((\<Sum>f\<leftarrow>files_of dir es. of_int (to_int (length (snd (snd f))))) / 2 ^ 20)]"
proof -
  from assms have fu: "file_map fu = file_map (BuildFileMap_loop dir es FileUtils_init)"
    by (auto simp add: BuildFileMap_def)
  show ?thesis
    unfolding PrintMapStats_def PrintMapStats_loop_sums fu
      BuildFileMap_loop_count BuildFileMap_loop_total
    by (simp add: FileUtils_init_def)
qed

lemma build_wrap:
  "BuildFileMap ''r'' (Some tree_wrap) FileUtils_init =
   (True, \<lparr>file_map = [(1, [''r/a'', ''r/b''])], map_built = True, matching_keys = [1]\<rparr>, [])"
  by (simp add: BuildFileMap_def tree_wrap_def FileUtils_init_def to_int_def set_insert_def
      Let_def length_zeros32)

lemma opened_wrap:
  "map_option (\<lambda>cs. opened (trace cs))
     (CompareMatchingKeys (disk_of ''r'' (Some tree_wrap))
        (fst (snd (BuildFileMap ''r'' (Some tree_wrap) FileUtils_init)))) =
   Some [''r/a'', ''r/b'']"
  by (simp add: build_wrap CompareMatchingKeys_def cmp_wrap)

lemma members_wrap:
  "map_option (\<lambda>cs. members (trace cs))
     (CompareMatchingKeys (disk_of ''r'' (Some tree_wrap))
        (fst (snd (BuildFileMap ''r'' (Some tree_wrap) FileUtils_init)))) =
   Some [''r/a'', ''r/b'']"
  by (simp add: build_wrap CompareMatchingKeys_def cmp_wrap)

text \<open>
  C1. The claim is that \<open>CompareFiles\<close> never returns true for two files of different
  sizes. It does here: \<open>r/a\<close> holds the single byte 1 and \<open>r/b\<close> the byte 1 followed by
  \<open>2^32\<close> zero bytes. Both get the key 1, so the scan compares them. The first round
  reads 64 bytes from each; the block of \<open>r/a\<close> is zero-padded, the blocks are equal, the
  first stream is at end of file, and the call returns true: the run reports the two
  files as one cluster.
\<close>
theorem CompareFiles_unequal_sizes_true:
  "disk_of ''r'' (Some tree_wrap) ''r/a'' = Some [1] \<and>
   disk_of ''r'' (Some tree_wrap) ''r/b'' = Some (1 # zeros32) \<and>
   length [1::byte] = 1 \<and> length (1 # zeros32) = 2 ^ 32 + 1 \<and>
   CompareFiles (disk_of ''r'' (Some tree_wrap)) ''r/a'' ''r/b'' =
     Some (True, [Fopen If1 ''r/a'' True, Fopen If2 ''r/b'' True,
                  Fread If1 64 1, Fread If2 64 64, Fclose If1, Fclose If2]) \<and>
   map_option (\<lambda>cs. members (trace cs))
     (CompareMatchingKeys (disk_of ''r'' (Some tree_wrap))
        (fst (snd (BuildFileMap ''r'' (Some tree_wrap) FileUtils_init)))) =
   Some [''r/a'', ''r/b'']"
  using cmp_wrap members_wrap disk_wrap by (simp add: length_zeros32)


lemma build_nested:
  "BuildFileMap ''r'' (Some tree_nested) FileUtils_init =
   (True, \<lparr>file_map = [(1, [''r/a'', ''r/x/b'']), (2, [''r/x/u''])], map_built = True,
           matching_keys = [1]\<rparr>, [])"
  by (simp add: BuildFileMap_def tree_nested_def FileUtils_init_def to_int_def set_insert_def
      Let_def)


section \<open>Collision keys\<close>

text \<open>
  What the code does ensure about the collision set, in terms of the keys it stores
  (the file size converted to \<open>int\<close>). After \<open>BuildFileMap\<close> on a fresh object,
  \<open>matching_keys\<close> holds exactly the keys whose vector in \<open>file_map\<close> has more than one
  path, and the vector of a key holds the paths of the files with that key, in walk
  order. The relation is an invariant of the loop from any state (so a key is in the set
  from the moment its vector gets a second element), and the loop never removes a key.
  \<open>CompareMatchingKeys\<close> returns, and every path it hands to the comparator is in a vector
  with more than one element; a file whose key no other file of the tree has is never
  handed to the comparator.
\<close>
lemma BuildFileMap_collision_keys:
  assumes "BuildFileMap dir (Some es) FileUtils_init = (ok, fu, tr)"
  shows "set (matching_keys fu) = {k. 1 < length (bucket (file_map fu) k)} \<and>
         (\<forall>k. bucket (file_map fu) k =
              map fst (filter (\<lambda>f. to_int (length (snd (snd f))) = k) (files_of dir es))) \<and>
         (\<forall>fu0 dir' es'. keys_inv fu0 \<longrightarrow>
              keys_inv (BuildFileMap_loop dir' es' fu0) \<and>
              set (matching_keys fu0) \<subseteq> set (matching_keys (BuildFileMap_loop dir' es' fu0))) \<and>
         (\<exists>cs. CompareMatchingKeys d fu = Some cs \<and>
              (\<forall>p\<in>set (opened (trace cs)).
                  \<exists>k. 1 < length (bucket (file_map fu) k) \<and> p \<in> set (bucket (file_map fu) k)) \<and>
              (\<forall>p r c. (p, r, c) \<in> set (files_of dir es) \<and>
                  distinct (map fst (files_of dir es)) \<and>
                  length (filter (\<lambda>f. to_int (length (snd (snd f))) = to_int (length c))
                            (files_of dir es)) = 1 \<longrightarrow>
                  p \<notin> set (opened (trace cs))))"
proof -
  note keys = BuildFileMap_init_keys [OF assms]
  note buck = BuildFileMap_init_bucket [OF assms]
  obtain cs where cs: "CompareMatchingKeys d fu = Some cs"
    using CompareMatchingKeys_returns by blast
  have coll: "\<exists>k. 1 < length (bucket (file_map fu) k) \<and> p \<in> set (bucket (file_map fu) k)"
    if "p \<in> set (opened (trace cs))" for p
    using CompareMatchingKeys_opened [OF cs that] keys by auto
  have uniq: "p \<notin> set (opened (trace cs))"
    if f: "(p, r, c) \<in> set (files_of dir es)"
      and dist: "distinct (map fst (files_of dir es))"
      and one: "length (filter (\<lambda>f. to_int (length (snd (snd f))) = to_int (length c))
                            (files_of dir es)) = 1"
    for p r c
  proof
    assume "p \<in> set (opened (trace cs))"
    from coll [OF this] obtain k where
      k: "1 < length (bucket (file_map fu) k)" and pk: "p \<in> set (bucket (file_map fu) k)"
      by blast
    from pk obtain f where f': "f \<in> set (files_of dir es)" "fst f = p"
      "to_int (length (snd (snd f))) = k"
      unfolding buck by auto
    from dist f f' have "f = (p, r, c)"
      by (metis eq_key_imp_eq_value prod.collapse)
    with f' have "k = to_int (length c)" by auto
    with k one show False unfolding buck by simp
  qed
  show ?thesis
    using keys buck cs coll uniq BuildFileMap_loop_keys_inv BuildFileMap_loop_keys_mono
    by blast
qed


lemma files_nested:
  "files_of ''r'' tree_nested =
     [(''r/a'', True, [1]), (''r/x/b'', True, [1]), (''r/x/u'', True, [1, 2])]"
  by (simp add: tree_nested_def)

lemma disk_nested:
  "disk_of ''r'' (Some tree_nested) ''r/a'' = Some [1]"
  "disk_of ''r'' (Some tree_nested) ''r/x/b'' = Some [1]"
  by (simp_all add: disk_of_def files_nested)

lemma cmp_nested:
  "CompareFiles (disk_of ''r'' (Some tree_nested)) ''r/a'' ''r/x/b'' =
     Some (True, [Fopen If1 ''r/a'' True, Fopen If2 ''r/x/b'' True,
                  Fread If1 64 1, Fread If2 64 1, Fclose If1, Fclose If2])"
  using CompareFiles_one_round [where d = "disk_of ''r'' (Some tree_nested)",
      OF disk_nested(1) disk_nested(2)]
  by simp

lemma opened_nested:
  "map_option (\<lambda>cs. opened (trace cs))
     (CompareMatchingKeys (disk_of ''r'' (Some tree_nested))
        \<lparr>file_map = [(1, [''r/a'', ''r/x/b'']), (2, [''r/x/u''])], map_built = True,
         matching_keys = [1]\<rparr>) =
   Some [''r/a'', ''r/x/b'']"
  by (simp add: CompareMatchingKeys_def cmp_nested)

lemma keys_nested:
  "matching_keys (BuildFileMap_loop ''r'' tree_nested FileUtils_init) = [1]"
  by (simp add: tree_nested_def FileUtils_init_def to_int_def set_insert_def Let_def)

lemma BuildFileMap_collision_keys_nested:
  "BuildFileMap ''r'' (Some tree_nested) FileUtils_init =
     (True, \<lparr>file_map = [(1, [''r/a'', ''r/x/b'']), (2, [''r/x/u''])], map_built = True,
             matching_keys = [1]\<rparr>, []) \<and>
   keys_inv FileUtils_init \<and>
   keys_inv (BuildFileMap_loop ''r'' tree_nested FileUtils_init) \<and>
   matching_keys (BuildFileMap_loop ''r'' tree_nested FileUtils_init) = [1] \<and>
   (''r/x/u'', True, [1, 2]) \<in> set (files_of ''r'' tree_nested) \<and>
   distinct (map fst (files_of ''r'' tree_nested)) \<and>
   length (filter (\<lambda>f. to_int (length (snd (snd f))) = to_int (length [1::byte, 2]))
             (files_of ''r'' tree_nested)) = 1 \<and>
   (\<exists>cs. CompareMatchingKeys (disk_of ''r'' (Some tree_nested))
            \<lparr>file_map = [(1, [''r/a'', ''r/x/b'']), (2, [''r/x/u''])], map_built = True,
             matching_keys = [1]\<rparr> = Some cs \<and>
         opened (trace cs) = [''r/a'', ''r/x/b''] \<and>
         ''r/x/u'' \<notin> set (opened (trace cs)))"
proof -
  let ?d = "disk_of ''r'' (Some tree_nested)"
  let ?fu = "\<lparr>file_map = [(1, [''r/a'', ''r/x/b'']), (2, [''r/x/u''])], map_built = True,
             matching_keys = [1]\<rparr>"
  note T = BuildFileMap_collision_keys [OF build_nested, of ?d]
  have 0: "keys_inv FileUtils_init"
    by (simp add: keys_inv_def FileUtils_init_def)
  with T have inv: "keys_inv (BuildFileMap_loop ''r'' tree_nested FileUtils_init)"
    by blast
  have 1: "(''r/x/u'', True, [1, 2]) \<in> set (files_of ''r'' tree_nested)"
    by (simp add: files_nested)
  have 2: "distinct (map fst (files_of ''r'' tree_nested))"
    by (simp add: files_nested)
  have 3: "length (filter (\<lambda>f. to_int (length (snd (snd f))) = to_int (length [1::byte, 2]))
             (files_of ''r'' tree_nested)) = 1"
    by (simp add: files_nested to_int_def)
  from T 1 2 3 obtain cs where cs: "CompareMatchingKeys ?d ?fu = Some cs"
    and u: "''r/x/u'' \<notin> set (opened (trace cs))"
    by blast
  from cs opened_nested have o: "opened (trace cs) = [''r/a'', ''r/x/b'']"
    by simp
  from build_nested 0 inv keys_nested 1 2 3 cs o u show ?thesis by blast
qed

lemma files_wrap:
  "files_of ''r'' tree_wrap = [(''r/a'', True, [1]), (''r/b'', True, 1 # zeros32)]"
  by (simp add: tree_wrap_def)

text \<open>
  C8. The claim ends: a file whose size is unique in the tree is never compared, as the
  comments of \<open>FindDups\<close> and \<open>CompareMatchingKeys\<close> say (only files of the same size are
  compared). The tree \<open>tree_wrap\<close> has two regular files, \<open>r/a\<close> of 1 byte and \<open>r/b\<close> of
  \<open>2^32 + 1\<close> bytes, so each has a size no other file has. \<open>BuildFileMap\<close> files both under
  the key 1, puts 1 into \<open>matching_keys\<close>, and \<open>CompareMatchingKeys\<close> hands both paths to
  the comparator.
\<close>
theorem CompareMatchingKeys_compares_files_of_unique_size:
  "files_of ''r'' tree_wrap = [(''r/a'', True, [1]), (''r/b'', True, 1 # zeros32)] \<and>
   length [1::byte] = 1 \<and> length (1 # zeros32) = 2 ^ 32 + 1 \<and>
   BuildFileMap ''r'' (Some tree_wrap) FileUtils_init =
     (True, \<lparr>file_map = [(1, [''r/a'', ''r/b''])], map_built = True, matching_keys = [1]\<rparr>, []) \<and>
   map_option (\<lambda>cs. opened (trace cs))
     (CompareMatchingKeys (disk_of ''r'' (Some tree_wrap))
        (fst (snd (BuildFileMap ''r'' (Some tree_wrap) FileUtils_init)))) =
   Some [''r/a'', ''r/b'']"
  using files_wrap build_wrap opened_wrap by (simp add: length_zeros32)

section \<open>Truncated sizes\<close>

text \<open>
  C10. \<open>BuildFileMap\<close> files every regular file under the key \<open>to_int\<close> of its size, the
  size converted to a 32-bit \<open>int\<close>. The key is congruent to the size modulo \<open>2^32\<close> and
  lies in the \<open>int\<close> range; it equals the size exactly when the size is at most
  \<open>INT_MAX\<close>, is smaller than the size otherwise, and is negative for sizes from \<open>2^31\<close>
  up to \<open>2^32 - 1\<close>. Two files whose sizes differ by a multiple of \<open>2^32\<close> get the same
  key and are in the same vector, and when their paths differ the key is in
  \<open>matching_keys\<close>, so that the vector is scanned; in the tree \<open>tree_wrap\<close> the files of
  sizes 1 and \<open>2^32 + 1\<close> are handed to the comparator. \<open>PrintMapStats\<close> reports the number
  of files and the sum of the keys (not of the sizes) divided by \<open>2^20\<close>.
\<close>
theorem BuildFileMap_truncates_sizes:
  assumes "BuildFileMap dir (Some es) FileUtils_init = (ok, fu, tr)"
  shows "(\<forall>(p, r, c)\<in>set (files_of dir es).
            p \<in> set (bucket (file_map fu) (to_int (length c))) \<and>
            to_int (length c) mod 2 ^ 32 = int (length c) mod 2 ^ 32 \<and>
            - (2 ^ 31) \<le> to_int (length c) \<and> to_int (length c) < 2 ^ 31 \<and>
            ((to_int (length c) = int (length c)) = (length c < 2 ^ 31)) \<and>
            (2 ^ 31 \<le> length c \<longrightarrow> to_int (length c) < int (length c)) \<and>
            (2 ^ 31 \<le> length c \<and> length c < 2 ^ 32 \<longrightarrow> to_int (length c) < 0)) \<and>
         (\<forall>(p1, r1, c1)\<in>set (files_of dir es). \<forall>(p2, r2, c2)\<in>set (files_of dir es).
            (\<exists>m. int (length c1) = int (length c2) + m * 2 ^ 32) \<longrightarrow>
              to_int (length c1) = to_int (length c2) \<and>
              p1 \<in> set (bucket (file_map fu) (to_int (length c1))) \<and>
              p2 \<in> set (bucket (file_map fu) (to_int (length c1))) \<and>
              (p1 \<noteq> p2 \<longrightarrow> to_int (length c1) \<in> set (matching_keys fu))) \<and>
         PrintMapStats fu =
           [Cout (''-- Stats -- '' @ endl),
            CoutStats (int (length (files_of dir es)))
              ((\<Sum>f\<leftarrow>files_of dir es. of_int (to_int (length (snd (snd f))))) / 2 ^ 20)] \<and>
         map_option (\<lambda>cs. opened (trace cs))
           (CompareMatchingKeys (disk_of ''r'' (Some tree_wrap))
              (fst (snd (BuildFileMap ''r'' (Some tree_wrap) FileUtils_init)))) =
           Some [''r/a'', ''r/b'']"
proof -
  note mem = BuildFileMap_init_member [OF assms]
  have a: "p \<in> set (bucket (file_map fu) (to_int (length c))) \<and>
            to_int (length c) mod 2 ^ 32 = int (length c) mod 2 ^ 32 \<and>
            - (2 ^ 31) \<le> to_int (length c) \<and> to_int (length c) < 2 ^ 31 \<and>
            ((to_int (length c) = int (length c)) = (length c < 2 ^ 31)) \<and>
            (2 ^ 31 \<le> length c \<longrightarrow> to_int (length c) < int (length c)) \<and>
            (2 ^ 31 \<le> length c \<and> length c < 2 ^ 32 \<longrightarrow> to_int (length c) < 0)"
    if "(p, r, c) \<in> set (files_of dir es)" for p r c
    using mem [OF that] to_int_mod [of "length c"] to_int_range [of "length c"]
      to_int_exact_iff [of "length c"] to_int_large [of "length c"]
      to_int_negative [of "length c"]
    by auto
  have b: "to_int (length c1) = to_int (length c2) \<and>
              p1 \<in> set (bucket (file_map fu) (to_int (length c1))) \<and>
              p2 \<in> set (bucket (file_map fu) (to_int (length c1))) \<and>
              (p1 \<noteq> p2 \<longrightarrow> to_int (length c1) \<in> set (matching_keys fu))"
    if f1: "(p1, r1, c1) \<in> set (files_of dir es)" and f2: "(p2, r2, c2) \<in> set (files_of dir es)"
      and m: "int (length c1) = int (length c2) + m * 2 ^ 32" for p1 r1 c1 p2 r2 c2 m
  proof -
    have eq: "to_int (length c1) = to_int (length c2)" using m by (rule to_int_wrap)
    have i1: "p1 \<in> set (bucket (file_map fu) (to_int (length c1)))" using mem [OF f1] .
    have i2: "p2 \<in> set (bucket (file_map fu) (to_int (length c1)))" using mem [OF f2] eq by simp
    have "to_int (length c1) \<in> set (matching_keys fu)" if "p1 \<noteq> p2"
      using two_in_list [OF i1 i2 that] BuildFileMap_init_keys [OF assms] by simp
    with eq i1 i2 show ?thesis by blast
  qed
  from a have a': "\<forall>(p, r, c)\<in>set (files_of dir es).
            p \<in> set (bucket (file_map fu) (to_int (length c))) \<and>
            to_int (length c) mod 2 ^ 32 = int (length c) mod 2 ^ 32 \<and>
            - (2 ^ 31) \<le> to_int (length c) \<and> to_int (length c) < 2 ^ 31 \<and>
            ((to_int (length c) = int (length c)) = (length c < 2 ^ 31)) \<and>
            (2 ^ 31 \<le> length c \<longrightarrow> to_int (length c) < int (length c)) \<and>
            (2 ^ 31 \<le> length c \<and> length c < 2 ^ 32 \<longrightarrow> to_int (length c) < 0)"
    by blast
  from b have b': "\<forall>(p1, r1, c1)\<in>set (files_of dir es). \<forall>(p2, r2, c2)\<in>set (files_of dir es).
            (\<exists>m. int (length c1) = int (length c2) + m * 2 ^ 32) \<longrightarrow>
              to_int (length c1) = to_int (length c2) \<and>
              p1 \<in> set (bucket (file_map fu) (to_int (length c1))) \<and>
              p2 \<in> set (bucket (file_map fu) (to_int (length c1))) \<and>
              (p1 \<noteq> p2 \<longrightarrow> to_int (length c1) \<in> set (matching_keys fu))"
    by blast
  from a' b' BuildFileMap_init_stats [OF assms] opened_wrap show ?thesis
    by (intro conjI)
qed


lemma length_zeros31: "length zeros31 = 2 ^ 31"
  unfolding zeros31_def by (rule length_replicate)

lemma files_sizes:
  "files_of ''r'' tree_sizes =
     [(''r/a'', True, [1]), (''r/b'', True, 1 # zeros32), (''r/n'', True, zeros31)]"
  by (simp add: tree_sizes_def)

lemma to_int_sizes:
  "to_int (length [1::byte]) = 1"
  "to_int (length (1 # zeros32)) = 1"
  "to_int (length zeros31) = - (2 ^ 31)"
  by (simp_all add: length_zeros32 length_zeros31 to_int_def)

lemma build_sizes:
  "BuildFileMap ''r'' (Some tree_sizes) FileUtils_init =
   (True, \<lparr>file_map = [(1, [''r/a'', ''r/b'']), (- (2 ^ 31), [''r/n''])], map_built = True,
           matching_keys = [1]\<rparr>, [])"
  by (simp add: BuildFileMap_def tree_sizes_def FileUtils_init_def set_insert_def
      Let_def length_zeros32 length_zeros31 to_int_def)

theorem BuildFileMap_truncates_sizes_witness:
  "BuildFileMap ''r'' (Some tree_sizes) FileUtils_init =
     (True, \<lparr>file_map = [(1, [''r/a'', ''r/b'']), (- (2 ^ 31), [''r/n''])], map_built = True,
             matching_keys = [1]\<rparr>, []) \<and>
   (''r/a'', True, [1]) \<in> set (files_of ''r'' tree_sizes) \<and>
   (''r/b'', True, 1 # zeros32) \<in> set (files_of ''r'' tree_sizes) \<and>
   (''r/n'', True, zeros31) \<in> set (files_of ''r'' tree_sizes) \<and>
   int (length (1 # zeros32)) = int (length [1::byte]) + 1 * 2 ^ 32 \<and>
   2 ^ 31 \<le> length (1 # zeros32) \<and>
   2 ^ 31 \<le> length zeros31 \<and> length zeros31 < 2 ^ 32 \<and>
   ''r/b'' \<noteq> ''r/a'' \<and>
   to_int (length (1 # zeros32)) = 1 \<and>
   to_int (length (1 # zeros32)) < int (length (1 # zeros32)) \<and>
   to_int (length zeros31) < 0 \<and>
   ''r/b'' \<in> set (bucket [(1, [''r/a'', ''r/b'']), (- (2 ^ 31), [''r/n''])] 1) \<and>
   1 \<in> set [1::int] \<and>
   PrintMapStats \<lparr>file_map = [(1, [''r/a'', ''r/b'']), (- (2 ^ 31), [''r/n''])], map_built = True,
             matching_keys = [1]\<rparr> =
     [Cout (''-- Stats -- '' @ endl), CoutStats 3 ((2 - 2 ^ 31) / 2 ^ 20)]"
proof -
  let ?fu = "\<lparr>file_map = [(1, [''r/a'', ''r/b'']), (- (2 ^ 31), [''r/n''])], map_built = True,
             matching_keys = [1::int]\<rparr>"
  note T = BuildFileMap_truncates_sizes [OF build_sizes]
  have fa: "(''r/a'', True, [1]) \<in> set (files_of ''r'' tree_sizes)"
    and fb: "(''r/b'', True, 1 # zeros32) \<in> set (files_of ''r'' tree_sizes)"
    and fn: "(''r/n'', True, zeros31) \<in> set (files_of ''r'' tree_sizes)"
    by (simp_all add: files_sizes)
  have m: "int (length (1 # zeros32)) = int (length [1::byte]) + 1 * 2 ^ 32"
    by (simp add: length_zeros32)
  have big: "2 ^ 31 \<le> length (1 # zeros32)"
    by (simp add: length_zeros32)
  have neg: "2 ^ 31 \<le> length zeros31" "length zeros31 < 2 ^ 32"
    by (simp_all add: length_zeros31)
  have ne: "''r/b'' \<noteq> ''r/a''" by simp
  note T1 = T [THEN conjunct1]
  note T2 = T [THEN conjunct2, THEN conjunct1]
  note T3 = T [THEN conjunct2, THEN conjunct2, THEN conjunct1]
  from bspec [OF T1 fb] have Tb1:
    "''r/b'' \<in> set (bucket (file_map ?fu) (to_int (length (1 # zeros32))))"
    by (simp only: split_conv)
  from bspec [OF T1 fb] have Tb2:
    "2 ^ 31 \<le> length (1 # zeros32) \<longrightarrow>
       to_int (length (1 # zeros32)) < int (length (1 # zeros32))"
    by (simp only: split_conv) (elim conjE, assumption)
  from Tb2 big have lt: "to_int (length (1 # zeros32)) < int (length (1 # zeros32))"
    by (rule mp)
  from bspec [OF T1 fn] have Tn:
    "2 ^ 31 \<le> length zeros31 \<and> length zeros31 < 2 ^ 32 \<longrightarrow> to_int (length zeros31) < 0"
    by (simp only: split_conv) (elim conjE, assumption)
  from Tn neg have lt0: "to_int (length zeros31) < 0"
    by (intro mp [OF Tn] conjI)
  from Tb1 have inb: "''r/b'' \<in> set (bucket [(1, [''r/a'', ''r/b'']), (- (2 ^ 31), [''r/n''])] 1)"
    by (simp only: to_int_sizes) simp
  from bspec [OF bspec [OF T2 fb, unfolded split_conv] fa] have Tba:
    "(\<exists>m. int (length (1 # zeros32)) = int (length [1::byte]) + m * 2 ^ 32) \<longrightarrow>
       to_int (length (1 # zeros32)) = to_int (length [1::byte]) \<and>
       ''r/b'' \<in> set (bucket (file_map ?fu) (to_int (length (1 # zeros32)))) \<and>
       ''r/a'' \<in> set (bucket (file_map ?fu) (to_int (length (1 # zeros32)))) \<and>
       (''r/b'' \<noteq> ''r/a'' \<longrightarrow> to_int (length (1 # zeros32)) \<in> set (matching_keys ?fu))"
    by (simp only: split_conv)
  have "\<exists>m. int (length (1 # zeros32)) = int (length [1::byte]) + m * 2 ^ 32"
    using m by (rule exI)
  with Tba ne have "to_int (length (1 # zeros32)) \<in> set (matching_keys ?fu)"
    by (elim impE conjE)
  then have mk: "1 \<in> set [1::int]"
    by (simp only: to_int_sizes) simp
  from T3 have st: "PrintMapStats ?fu =
     [Cout (''-- Stats -- '' @ endl), CoutStats 3 ((2 - 2 ^ 31) / 2 ^ 20)]"
    by (simp add: files_sizes length_zeros32 length_zeros31 to_int_def)
  from build_sizes fa fb fn m big neg ne to_int_sizes(2) lt lt0 inb mk st show ?thesis
    by (intro conjI)
qed

section \<open>The command line\<close>

text \<open>With more than one argument the program prints the usage line and exits with 1.\<close>
lemma main_too_many_arguments:
  "2 < length argv \<Longrightarrow> main fs argv = Exit 1 [Cerr (''Usage: file_utils <root_directory>'' @ endl)]"
  by (simp add: main_def)

text \<open>
  C5. The claim is that every run with a wrong argument count prints the usage message,
  exits with code 1 and reads no argument that was not supplied. Run without an
  argument (\<open>argc = 1\<close>), \<open>main\<close> constructs \<open>root\<close> from \<open>argv[1]\<close>, the terminating
  null pointer, before it tests \<open>argc\<close>: the behaviour is undefined, and the usage message
  is not reached.
\<close>
theorem main_without_argument:
  "main fs [''file_utils''] = Undefined_Behaviour"
  by (simp add: main_def)


section \<open>The clusterer in terms of the comparator relation\<close>

lemma same_files_iff:
  "CompareFiles d a b = Some (r, tr) \<Longrightarrow> same_files d a b = r"
  by (simp add: same_files_def)

lemma inner_loop_skips:
  "i \<in> existing_matches s \<Longrightarrow> inner_loop d i js s = Some s"
  by (induction js) simp_all

lemma inner_loop_effect:
  assumes "inner_loop d i js s = Some s'" "i \<notin> existing_matches s" "i \<notin> set js"
  shows "existing_matches s' = existing_matches s \<union> set (filter (same_files d i) js) \<and>
         members (trace s') =
           members (trace s) @
           (if first_match s \<and> filter (same_files d i) js \<noteq> [] then [i] else []) @
           filter (same_files d i) js \<and>
         match_found s' =
           (match_found s \<or> (first_match s \<and> filter (same_files d i) js \<noteq> []))"
  using assms
proof (induction js arbitrary: s)
  case Nil
  then show ?case by simp
next
  case (Cons j js)
  from Cons.prems(1) show ?case
  proof (cases rule: inner_loop_step)
    case skip
    with Cons.prems(2) show ?thesis by simp
  next
    case (differ tr)
    have nj: "\<not> same_files d i j" using same_files_iff [OF differ(2)] by simp
    have m: "members tr = []" using CompareFiles_trace [OF differ(2)] by simp
    from Cons.IH [OF differ(3)] Cons.prems(2,3) nj m show ?thesis
      by (simp add: members_append)
  next
    case (same tr)
    have sj: "same_files d i j" using same_files_iff [OF same(2)] by simp
    have m: "members tr = []" using CompareFiles_trace [OF same(2)] by simp
    from Cons.IH [OF same(3)] Cons.prems(2,3) sj m show ?thesis
      by (auto simp add: members_append)
  qed
qed

lemma outer_loop_clusters:
  assumes "outer_loop d ps s = Some s'" "distinct ps"
  shows "(existing_matches s', members (trace s')) =
         bucket_clusters (same_files d) ps (existing_matches s, members (trace s))"
  using assms
proof (induction ps arbitrary: s)
  case Nil
  then show ?case by simp
next
  case (Cons i rest)
  let ?s0 = "s\<lparr>first_match := True, match_found := False\<rparr>"
  let ?hits = "filter (same_files d i) rest"
  from Cons.prems(2) have d: "distinct rest" and ni: "i \<notin> set rest" by simp_all
  show ?case
  proof (cases "i \<in> existing_matches s")
    case True
    then have "inner_loop d i rest ?s0 = Some ?s0"
      by (intro inner_loop_skips) simp
    with Cons.prems(1) have "outer_loop d rest ?s0 = Some s'" by simp
    from Cons.IH [OF this d] True show ?thesis by simp
  next
    case False
    obtain s1 where 1: "inner_loop d i rest ?s0 = Some s1"
      using inner_loop_returns by blast
    from inner_loop_effect [OF 1] False ni have
      e: "existing_matches s1 = existing_matches s \<union> set ?hits"
      and m: "members (trace s1) = members (trace s) @ (if ?hits \<noteq> [] then [i] else []) @ ?hits"
      and f: "match_found s1 = (?hits \<noteq> [])"
      by simp_all
    show ?thesis
    proof (cases "?hits = []")
      case True
      with Cons.prems(1) 1 f have "outer_loop d rest s1 = Some s'" by simp
      from Cons.IH [OF this d] e m True False show ?thesis by simp
    next
      case nonempty: False
      with Cons.prems(1) 1 f have "outer_loop d rest
            (s1\<lparr>trace := trace s1 @ [Cout '' ]'', Cout endl, Cout endl],
                     existing_matches := insert i (existing_matches s1)\<rparr>) = Some s'"
        by simp
      from Cons.IH [OF this d] e m nonempty False show ?thesis
        by (simp add: members_append)
    qed
  qed
qed

lemma keys_loop_clusters:
  assumes "keys_loop d m ks s = Some s'" "\<forall>k\<in>set ks. distinct (bucket m k)"
  shows "(existing_matches s', members (trace s')) =
         fold (\<lambda>k. bucket_clusters (same_files d) (bucket m k)) ks
           (existing_matches s, members (trace s))"
  using assms
proof (induction ks arbitrary: s)
  case Nil
  then show ?case by simp
next
  case (Cons x xs)
  obtain s1 where 1: "outer_loop d (bucket m x) s = Some s1"
    using outer_loop_returns by blast
  with Cons.prems have 2: "keys_loop d m xs s1 = Some s'" by simp
  from Cons.prems(2) have dx: "distinct (bucket m x)" and dxs: "\<forall>k\<in>set xs. distinct (bucket m k)"
    by simp_all
  from Cons.IH [OF 2 dxs] outer_loop_clusters [OF 1 dx] show ?case by simp
qed

lemma CompareMatchingKeys_clusters:
  assumes "CompareMatchingKeys d fu = Some cs"
    "\<forall>k\<in>set (matching_keys fu). distinct (bucket (file_map fu) k)"
  shows "(existing_matches cs, members (trace cs)) =
         fold (\<lambda>k. bucket_clusters (same_files d) (bucket (file_map fu) k)) (matching_keys fu)
           ({}, [])"
  using keys_loop_clusters [OF assms [unfolded CompareMatchingKeys_def]] by simp


section \<open>A path reported twice\<close>

lemma CompareFiles_differ_after_64:
  assumes "d a = Some (h @ x # ta)" "d b = Some (h @ y # tb)" "length h = 64" "x \<noteq> y"
  shows "\<not> same_files d a b"
  using assms
  apply (simp add: same_files_def CompareFiles_def)
  apply (subst compare_loop.simps)
  apply (simp add: Let_def fread_def MAX_PASS_def BUFFER_SIZE_def)
  apply (subst compare_loop.simps)
  apply (simp add: Let_def fread_def MAX_PASS_def BUFFER_SIZE_def)
  done

lemma length_tail_zeros: "length tail_zeros = 2 ^ 32 - 64"
  unfolding tail_zeros_def by (rule length_replicate)

lemma length_big: "length big_a = 2 ^ 32 + 1" "length big_c = 2 ^ 32 + 1"
  by (simp_all add: big_a_def big_c_def length_tail_zeros)

lemma take_big: "take 64 big_a = 1 # replicate 63 0"
  by (simp add: big_a_def)

lemma files_dup:
  "files_of ''r'' tree_dup = [(''r/a'', True, big_a), (''r/c'', True, big_c), (''r/b'', True, [1])]"
  by (simp add: tree_dup_def)

lemma disk_dup:
  "disk_of ''r'' (Some tree_dup) ''r/a'' = Some big_a"
  "disk_of ''r'' (Some tree_dup) ''r/c'' = Some big_c"
  "disk_of ''r'' (Some tree_dup) ''r/b'' = Some [1]"
  by (simp_all add: disk_of_def files_dup)

lemma build_dup:
  "BuildFileMap ''r'' (Some tree_dup) FileUtils_init =
   (True, \<lparr>file_map = [(1, [''r/a'', ''r/c'', ''r/b''])], map_built = True, matching_keys = [1]\<rparr>, [])"
  by (simp add: BuildFileMap_def tree_dup_def FileUtils_init_def to_int_def set_insert_def
      Let_def length_big)

lemma same_dup:
  "\<not> same_files (disk_of ''r'' (Some tree_dup)) ''r/a'' ''r/c''"
  "same_files (disk_of ''r'' (Some tree_dup)) ''r/a'' ''r/b''"
  "same_files (disk_of ''r'' (Some tree_dup)) ''r/c'' ''r/b''"
proof -
  let ?d = "disk_of ''r'' (Some tree_dup)"
  have a: "?d ''r/a'' = Some ((1 # replicate 63 0) @ 5 # tail_zeros)"
    and c: "?d ''r/c'' = Some ((1 # replicate 63 0) @ 7 # tail_zeros)"
    using disk_dup by (simp_all add: big_a_def big_c_def)
  show "\<not> same_files ?d ''r/a'' ''r/c''"
    by (rule CompareFiles_differ_after_64 [where d = ?d and a = "''r/a''" and b = "''r/c''", OF a c])
      simp_all
  show "same_files ?d ''r/a'' ''r/b''"
    using CompareFiles_one_round [where d = ?d and a = "''r/a''" and b = "''r/b''",
        OF disk_dup(1) disk_dup(3)]
    by (simp add: same_files_def big_a_def length_tail_zeros)
  show "same_files ?d ''r/c'' ''r/b''"
    using CompareFiles_one_round [where d = ?d and a = "''r/c''" and b = "''r/b''",
        OF disk_dup(2) disk_dup(3)]
    by (simp add: same_files_def big_c_def length_tail_zeros)
qed

lemma members_dup:
  "map_option (\<lambda>cs. members (trace cs))
     (CompareMatchingKeys (disk_of ''r'' (Some tree_dup))
        (fst (snd (BuildFileMap ''r'' (Some tree_dup) FileUtils_init)))) =
   Some [''r/a'', ''r/b'', ''r/c'', ''r/b'']"
proof -
  let ?d = "disk_of ''r'' (Some tree_dup)"
  let ?fu = "\<lparr>file_map = [(1, [''r/a'', ''r/c'', ''r/b''])], map_built = True, matching_keys = [1]\<rparr>"
  obtain cs where cs: "CompareMatchingKeys ?d ?fu = Some cs"
    using CompareMatchingKeys_returns by blast
  have "(existing_matches cs, members (trace cs)) =
         fold (\<lambda>k. bucket_clusters (same_files ?d) (bucket (file_map ?fu) k)) (matching_keys ?fu)
           ({}, [])"
    by (rule CompareMatchingKeys_clusters [OF cs]) simp
  then have "members (trace cs) = [''r/a'', ''r/b'', ''r/c'', ''r/b'']"
    by (simp add: same_dup)
  with cs show ?thesis by (simp add: build_dup)
qed

text \<open>
  C2. The claim is that no path is printed in two clusters, for every input tree. In the
  tree \<open>tree_dup\<close> the files \<open>r/a\<close> and \<open>r/c\<close> have \<open>2^32 + 1\<close> bytes each and \<open>r/b\<close> has
  one byte, so all three get the key 1. \<open>r/a\<close> and \<open>r/c\<close> differ in their 65th byte;
  each of them compares equal to \<open>r/b\<close>, whose only byte is their first and whose block is
  zero-padded like their next 63 bytes. The representative \<open>r/a\<close> reports \<open>r/b\<close>; the next
  representative \<open>r/c\<close> is compared with \<open>r/b\<close> again, since only \<open>*i\<close> is looked up in
  \<open>existing_matches\<close>, and reports \<open>r/b\<close> a second time.
\<close>
theorem CompareMatchingKeys_reports_path_twice:
  "map_option (\<lambda>cs. members (trace cs))
     (CompareMatchingKeys (disk_of ''r'' (Some tree_dup))
        (fst (snd (BuildFileMap ''r'' (Some tree_dup) FileUtils_init)))) =
   Some [''r/a'', ''r/b'', ''r/c'', ''r/b''] \<and>
   \<not> distinct [''r/a'', ''r/b'', ''r/c'', ''r/b'']"
  using members_dup by simp


section \<open>Files of equal length: the comparator decides equality of contents\<close>

lemma compare_loop_same_length:
  assumes "0 < sz \<or> pass < MAX_PASS" "length (pending if1) = length (pending if2)"
    "\<not> eof if1" "\<not> eof if2"
  shows "map_option fst (compare_loop sz pass if1 if2 tr) = Some (pending if1 = pending if2)"
  using assms
proof (induction "length (pending if1)" arbitrary: sz pass if1 if2 tr rule: less_induct)
  case less
  let ?sz = "if pass < MAX_PASS then BUFFER_SIZE ! pass else sz"
  let ?tr = "tr @ [Fread If1 ?sz (fst (snd (fread ?sz if1))), Fread If2 ?sz (fst (snd (fread ?sz if2)))]"
  have pos: "0 < ?sz" using less.prems(1) by (rule next_size_pos)
  have blocks: "(fst (fread ?sz if1) = fst (fread ?sz if2)) =
      (take ?sz (pending if1) = take ?sz (pending if2))"
    using less.prems(2) by (simp add: fread_def)
  have eofs: "eof (snd (snd (fread ?sz if1))) = (length (pending if1) < ?sz)"
    "eof (snd (snd (fread ?sz if2))) = (length (pending if1) < ?sz)"
    using less.prems(2,3,4) by (simp_all add: fread_def)
  have pend: "pending (snd (snd (fread ?sz if1))) = drop ?sz (pending if1)"
    "pending (snd (snd (fread ?sz if2))) = drop ?sz (pending if2)"
    by (simp_all add: fread_def)
  show ?case
  proof (cases "take ?sz (pending if1) = take ?sz (pending if2)")
    case False
    then have "pending if1 \<noteq> pending if2" by auto
    with False blocks show ?thesis
      by (subst compare_loop.simps) (simp add: Let_def)
  next
    case True
    show ?thesis
    proof (cases "length (pending if1) < ?sz")
      case short: True
      with True less.prems(2) have "pending if1 = pending if2" by simp
      with True blocks eofs short show ?thesis
        by (subst compare_loop.simps) (simp add: Let_def)
    next
      case long: False
      with pos have "length (pending (snd (snd (fread ?sz if1)))) < length (pending if1)"
        by (simp add: pend)
      from less.hyps [OF this, of ?sz "if pass < MAX_PASS then pass + 1 else pass"
          "snd (snd (fread ?sz if2))" ?tr] pos less.prems(2) long eofs
      have "map_option fst (compare_loop ?sz (if pass < MAX_PASS then pass + 1 else pass)
          (snd (snd (fread ?sz if1))) (snd (snd (fread ?sz if2))) ?tr) =
          Some (drop ?sz (pending if1) = drop ?sz (pending if2))"
        by (simp add: pend)
      moreover have "(drop ?sz (pending if1) = drop ?sz (pending if2)) = (pending if1 = pending if2)"
        using True by (metis append_take_drop_id)
      ultimately show ?thesis
        using True blocks eofs long
        by (subst compare_loop.simps) (simp add: Let_def)
    qed
  qed
qed

lemma CompareFiles_same_length:
  assumes "d a = Some ca" "d b = Some cb" "length ca = length cb"
  shows "same_files d a b = (ca = cb)"
proof -
  have "map_option fst (compare_loop 0 0 \<lparr>pending = ca, eof = False\<rparr>
      \<lparr>pending = cb, eof = False\<rparr> [Fopen If1 a True, Fopen If2 b True]) = Some (ca = cb)"
    using compare_loop_same_length [OF stages_left,
      of "\<lparr>pending = ca, eof = False\<rparr>" "\<lparr>pending = cb, eof = False\<rparr>"
         "[Fopen If1 a True, Fopen If2 b True]"] assms(3)
    by simp
  moreover have "CompareFiles d a b = compare_loop 0 0 \<lparr>pending = ca, eof = False\<rparr>
      \<lparr>pending = cb, eof = False\<rparr> [Fopen If1 a True, Fopen If2 b True]"
    using assms(1,2) by (simp add: CompareFiles_def)
  ultimately show ?thesis
    by (simp only: same_files_def) simp
qed

lemma same_files_readable:
  "same_files d a b \<Longrightarrow> d a \<noteq> None \<and> d b \<noteq> None"
  by (cases "d a"; cases "d b") (auto simp add: same_files_def CompareFiles_def Let_def)


section \<open>No path is reported twice when the comparator is symmetric and transitive on each bucket\<close>

lemma bucket_clusters_distinct:
  assumes sym: "\<And>a b. a \<in> B \<Longrightarrow> b \<in> B \<Longrightarrow> E a b \<Longrightarrow> E b a"
    and trans: "\<And>a b c. a \<in> B \<Longrightarrow> b \<in> B \<Longrightarrow> c \<in> B \<Longrightarrow> E a b \<Longrightarrow> E b c \<Longrightarrow> E a c"
  shows "set rest \<subseteq> B \<Longrightarrow> distinct rest \<Longrightarrow> distinct out \<Longrightarrow> set out = M \<Longrightarrow>
     (\<And>q p. q \<in> set rest \<Longrightarrow> q \<notin> M \<Longrightarrow> p \<in> M \<Longrightarrow> p \<in> B \<Longrightarrow> \<not> E q p) \<Longrightarrow>
     bucket_clusters E rest (M, out) = (M', out') \<Longrightarrow>
     distinct out' \<and> set out' = M' \<and> M' \<subseteq> M \<union> set rest"
proof (induction rest arbitrary: M out)
  case Nil
  then show ?case by simp
next
  case (Cons i rest)
  let ?hits = "filter (E i) rest"
  from Cons.prems(1,2) have sub: "set rest \<subseteq> B" and iB: "i \<in> B"
    and dr: "distinct rest" and ni: "i \<notin> set rest"
    by simp_all
  show ?case
  proof (cases "i \<in> M \<or> ?hits = []")
    case True
    with Cons.prems(6) have run: "bucket_clusters E rest (M, out) = (M', out')" by simp
    have "distinct out' \<and> set out' = M' \<and> M' \<subseteq> M \<union> set rest"
      using sub dr Cons.prems(3,4) _ run
    proof (rule Cons.IH)
      fix q p assume "q \<in> set rest" "q \<notin> M" "p \<in> M" "p \<in> B"
      then show "\<not> E q p" using Cons.prems(5) [of q p] by simp
    qed
    then show ?thesis by auto
  next
    case False
    then have iM: "i \<notin> M" and ne: "?hits \<noteq> []" by simp_all
    let ?M1 = "insert i (M \<union> set ?hits)"
    let ?out1 = "out @ i # ?hits"
    from Cons.prems(6) False have run: "bucket_clusters E rest (?M1, ?out1) = (M', out')"
      by simp
    have hitsM: "j \<notin> M" if "j \<in> set ?hits" for j
    proof
      assume "j \<in> M"
      moreover from that have "E i j" "j \<in> B" using sub by auto
      ultimately show False using Cons.prems(5) [of i j] iM by simp
    qed
    have d1: "distinct ?out1"
      using Cons.prems(3,4) iM hitsM dr ni by auto
    have s1: "set ?out1 = ?M1"
      using Cons.prems(4) by auto
    have "distinct out' \<and> set out' = M' \<and> M' \<subseteq> ?M1 \<union> set rest"
      using sub dr d1 s1 _ run
    proof (rule Cons.IH)
      fix q p assume q: "q \<in> set rest" and qM: "q \<notin> ?M1" and p: "p \<in> ?M1" and pB: "p \<in> B"
      from q sub have qB: "q \<in> B" by auto
      from qM q have nq: "\<not> E i q" by auto
      from p consider "p = i" | "p \<in> M" | "p \<in> set ?hits" by auto
      then show "\<not> E q p"
      proof cases
        case 1
        with nq sym [OF qB iB] show ?thesis by auto
      next
        case 2
        with Cons.prems(5) [of q p] q qM pB show ?thesis by simp
      next
        case 3
        then have ip: "E i p" by simp
        show ?thesis
        proof
          assume "E q p"
          then have "E p q" using sym [OF qB pB] by simp
          with ip have "E i q" using trans [OF iB pB qB] by simp
          with nq show False by simp
        qed
      qed
    qed
    then show ?thesis by auto
  qed
qed

lemma fold_clusters_distinct:
  assumes sym: "\<And>k a b. a \<in> set (bk k) \<Longrightarrow> b \<in> set (bk k) \<Longrightarrow> E a b \<Longrightarrow> E b a"
    and trans: "\<And>k a b c. a \<in> set (bk k) \<Longrightarrow> b \<in> set (bk k) \<Longrightarrow>
        c \<in> set (bk k) \<Longrightarrow> E a b \<Longrightarrow> E b c \<Longrightarrow> E a c"
  shows "distinct (concat (map bk ks)) \<Longrightarrow> distinct out \<Longrightarrow> set out = M \<Longrightarrow>
     M \<inter> set (concat (map bk ks)) = {} \<Longrightarrow>
     fold (\<lambda>k. bucket_clusters E (bk k)) ks (M, out) = (M', out') \<Longrightarrow>
     distinct out'"
proof (induction ks arbitrary: M out)
  case Nil
  then show ?case by simp
next
  case (Cons k ks)
  obtain M1 out1 where 1: "bucket_clusters E (bk k) (M, out) = (M1, out1)"
    by (cases "bucket_clusters E (bk k) (M, out)") auto
  from Cons.prems(1) have dk: "distinct (bk k)" and dks: "distinct (concat (map bk ks))"
    and disj: "set (bk k) \<inter> set (concat (map bk ks)) = {}"
    by simp_all
  from Cons.prems(4) have Mk: "M \<inter> set (bk k) = {}"
    and Mks: "M \<inter> set (concat (map bk ks)) = {}"
    by auto
  have vac: "\<And>q p. q \<in> set (bk k) \<Longrightarrow> q \<notin> M \<Longrightarrow> p \<in> M \<Longrightarrow> p \<in> set (bk k) \<Longrightarrow> \<not> E q p"
    using Mk by blast
  have "distinct out1 \<and> set out1 = M1 \<and> M1 \<subseteq> M \<union> set (bk k)"
    by (rule bucket_clusters_distinct [of "set (bk k)" E "bk k" out M M1 out1,
          OF sym trans subset_refl dk Cons.prems(2,3) vac 1])
  then have d1: "distinct out1" and s1: "set out1 = M1" and sub: "M1 \<subseteq> M \<union> set (bk k)"
    by simp_all
  from sub Mks disj have i1: "M1 \<inter> set (concat (map bk ks)) = {}"
    by blast
  from Cons.prems(5) 1 have run: "fold (\<lambda>k. bucket_clusters E (bk k)) ks (M1, out1) = (M', out')"
    by simp
  show ?case
    by (rule Cons.IH [OF dks d1 s1 i1 run])
qed


section \<open>Trees of files below \<open>2^31\<close> bytes\<close>

lemma distinct_set_insert: "distinct ks \<Longrightarrow> distinct (set_insert k ks)"
  by (simp add: set_insert_def distinct_insort)

lemma BuildFileMap_loop_keys_distinct:
  "distinct (matching_keys fu) \<Longrightarrow> distinct (matching_keys (BuildFileMap_loop dir es fu))"
proof (induction dir es fu rule: BuildFileMap_loop.induct)
  case (3 dir name r c es fu)
  let ?sz = "to_int (length c)"
  let ?fu1 = "fu\<lparr>file_map := push_back (file_map fu) ?sz (dir @ ''/'' @ name)\<rparr>"
  let ?fu2 = "if length (bucket (file_map ?fu1) ?sz) > 1
              then ?fu1\<lparr>matching_keys := set_insert ?sz (matching_keys ?fu1)\<rparr> else ?fu1"
  have "distinct (matching_keys ?fu2)"
    using "3.prems" by (simp add: distinct_set_insert)
  then have "distinct (matching_keys (BuildFileMap_loop dir es ?fu2))"
    by (rule "3.IH" [OF refl refl refl])
  then show ?case by (simp only: BuildFileMap_loop.simps Let_def)
qed simp_all

lemma BuildFileMap_init_keys_distinct:
  assumes "BuildFileMap dir (Some es) FileUtils_init = (ok, fu, tr)"
  shows "distinct (matching_keys fu)"
proof -
  have "distinct (matching_keys (BuildFileMap_loop dir es FileUtils_init))"
    by (rule BuildFileMap_loop_keys_distinct) (simp add: FileUtils_init_def)
  with assms show ?thesis by (auto simp add: BuildFileMap_def)
qed

lemma distinct_buckets_concat:
  assumes "distinct (map fst fs)"
  shows "distinct ks \<Longrightarrow>
         distinct (concat (map (\<lambda>k. map fst (filter (\<lambda>f. g f = k) fs)) ks))"
proof (induction ks)
  case Nil
  show ?case by simp
next
  case (Cons k ks)
  have 1: "distinct (map fst (filter (\<lambda>f. g f = k) fs))"
    using assms by (rule distinct_map_filter)
  have 2: "set (map fst (filter (\<lambda>f. g f = k) fs)) \<inter>
           set (concat (map (\<lambda>k. map fst (filter (\<lambda>f. g f = k) fs)) ks)) = {}"
  proof (rule ccontr)
    assume "\<not> ?thesis"
    then obtain p where "p \<in> set (map fst (filter (\<lambda>f. g f = k) fs))"
      and "p \<in> set (concat (map (\<lambda>k. map fst (filter (\<lambda>f. g f = k) fs)) ks))"
      by blast
    then obtain f f' where f: "f \<in> set fs" "g f = k" "fst f = p"
      and f': "f' \<in> set fs" "g f' \<in> set ks" "fst f' = p"
      by auto
    from assms f(1,3) f'(1,3) have "f = f'"
      by (metis eq_key_imp_eq_value prod.collapse)
    with f f' Cons.prems show False by simp
  qed
  from Cons 1 2 show ?case by simp
qed

lemma disk_of_file:
  assumes "distinct (map fst (files_of dir es))" "(p, r, c) \<in> set (files_of dir es)"
  shows "disk_of dir (Some es) p = (if r then Some c else None)"
  using map_of_is_SomeI [OF assms] by (simp add: disk_of_def)

lemma same_files_in_tree:
  assumes "distinct (map fst (files_of dir es))"
    "(a, ra, ca) \<in> set (files_of dir es)" "(b, rb, cb) \<in> set (files_of dir es)"
    "length ca = length cb"
  shows "same_files (disk_of dir (Some es)) a b = (ra \<and> rb \<and> ca = cb)"
proof (cases "ra \<and> rb")
  case True
  with disk_of_file [OF assms(1,2)] disk_of_file [OF assms(1,3)]
  have "disk_of dir (Some es) a = Some ca" "disk_of dir (Some es) b = Some cb" by simp_all
  from CompareFiles_same_length [OF this assms(4)] True show ?thesis by simp
next
  case False
  with disk_of_file [OF assms(1,2)] disk_of_file [OF assms(1,3)]
  have "disk_of dir (Some es) a = None \<or> disk_of dir (Some es) b = None" by auto
  with same_files_readable [of "disk_of dir (Some es)" a b] False show ?thesis by auto
qed

text \<open>
  Where the truncation of the size cannot occur, the property of C2 holds: for every tree
  with pairwise distinct paths whose files are all smaller than \<open>2^31\<close> bytes, the scan
  returns and prints no path twice as a cluster member. Files in one bucket then have the
  same length, the comparator decides equality of contents between them, and that
  relation is symmetric and transitive.
\<close>
lemma no_path_reported_twice:
  assumes build: "BuildFileMap dir (Some es) FileUtils_init = (ok, fu, tr)"
    and dist: "distinct (map fst (files_of dir es))"
    and small: "\<forall>f\<in>set (files_of dir es). length (snd (snd f)) < 2 ^ 31"
  shows "\<exists>cs. CompareMatchingKeys (disk_of dir (Some es)) fu = Some cs \<and>
              distinct (members (trace cs))"
proof -
  let ?d = "disk_of dir (Some es)"
  let ?fs = "files_of dir es"
  let ?bk = "\<lambda>k. map fst (filter (\<lambda>f. to_int (length (snd (snd f))) = k) ?fs)"
  have bk: "bucket (file_map fu) k = ?bk k" for k
    by (rule BuildFileMap_init_bucket [OF build])
  obtain cs where cs: "CompareMatchingKeys ?d fu = Some cs"
    using CompareMatchingKeys_returns by blast
  have dk: "distinct (?bk k)" for k
    using dist by (rule distinct_map_filter)
  have run: "(existing_matches cs, members (trace cs)) =
      fold (\<lambda>k. bucket_clusters (same_files ?d) (?bk k)) (matching_keys fu) ({}, [])"
    using CompareMatchingKeys_clusters [OF cs] dk by (simp add: bk)
  have inb: "\<exists>r c. (a, r, c) \<in> set ?fs \<and> int (length c) = k" if "a \<in> set (?bk k)" for a k
  proof -
    from that obtain f where f: "f \<in> set ?fs" "to_int (length (snd (snd f))) = k" "fst f = a"
      by auto
    from small f(1) have "to_int (length (snd (snd f))) = int (length (snd (snd f)))"
      by (intro to_int_small) simp
    with f have "(a, fst (snd f), snd (snd f)) \<in> set ?fs \<and> int (length (snd (snd f))) = k"
      by auto
    then show ?thesis by blast
  qed
  have rel: "same_files ?d a b = (\<exists>ra ca rb cb. (a, ra, ca) \<in> set ?fs \<and> (b, rb, cb) \<in> set ?fs \<and>
        ra \<and> rb \<and> ca = cb)"
    if a: "a \<in> set (?bk k)" and b: "b \<in> set (?bk k)" for a b k
  proof -
    from inb [OF a] obtain ra ca where fa: "(a, ra, ca) \<in> set ?fs" "int (length ca) = k" by blast
    from inb [OF b] obtain rb cb where fb: "(b, rb, cb) \<in> set ?fs" "int (length cb) = k" by blast
    from fa fb have len: "length ca = length cb" by simp
    have u: "ra' = ra \<and> ca' = ca" if "(a, ra', ca') \<in> set ?fs" for ra' ca'
      using dist fa(1) that by (metis eq_key_imp_eq_value prod.inject)
    have v: "rb' = rb \<and> cb' = cb" if "(b, rb', cb') \<in> set ?fs" for rb' cb'
      using dist fb(1) that by (metis eq_key_imp_eq_value prod.inject)
    from same_files_in_tree [OF dist fa(1) fb(1) len] fa(1) fb(1) u v show ?thesis
      by blast
  qed
  have map_eq: "ra' = ra \<and> ca' = ca"
    if "(a, ra, ca) \<in> set ?fs" "(a, ra', ca') \<in> set ?fs" for a ra ca ra' ca'
    using dist that by (metis eq_key_imp_eq_value prod.inject)
  have sym: "same_files ?d b a"
    if "a \<in> set (?bk k)" "b \<in> set (?bk k)" "same_files ?d a b" for k a b
    using that rel [of a k b] rel [of b k a] by blast
  have trans: "same_files ?d a c"
    if "a \<in> set (?bk k)" "b \<in> set (?bk k)" "c \<in> set (?bk k)"
      "same_files ?d a b" "same_files ?d b c" for k a b c
  proof -
    from that(4) rel [OF that(1,2)] obtain ra ca rb cb where
      1: "(a, ra, ca) \<in> set ?fs" "(b, rb, cb) \<in> set ?fs" "ra" "rb" "ca = cb" by blast
    from that(5) rel [OF that(2,3)] obtain rb' cb' rc cc where
      2: "(b, rb', cb') \<in> set ?fs" "(c, rc, cc) \<in> set ?fs" "rb'" "rc" "cb' = cc" by blast
    from map_eq [OF 1(2) 2(1)] 1 2 have "ca = cc" by simp
    with 1 2 rel [OF that(1,3)] show ?thesis by blast
  qed
  have dc: "distinct (concat (map ?bk (matching_keys fu)))"
    using dist BuildFileMap_init_keys_distinct [OF build] by (rule distinct_buckets_concat)
  have "distinct (members (trace cs))"
    by (rule fold_clusters_distinct [of ?bk "same_files ?d" "matching_keys fu" "[]" "{}"
          "existing_matches cs" "members (trace cs)", OF sym trans dc _ _ _ run [symmetric]])
       simp_all
  with cs show ?thesis by blast
qed


end
